theory Spec2Isabelle
  imports Main "HOL-Library.Sublist"
begin

section \<open>Data model\<close>

text \<open>
  The program is a Streamlit front end (\<^verbatim>\<open>app.py\<close>) around a small prompt engine. The
  engine works on Python dictionaries, whose iteration order is the insertion order of
  their keys, so a dictionary is an association list with pairwise distinct keys:
  \<^verbatim>\<open>d[k] = v\<close> overwrites the value of an existing key in place and appends a new key
  at the end.
\<close>

type_synonym ('k, 'v) dict = "('k \<times> 'v) list"

fun dict_set :: "('k, 'v) dict \<Rightarrow> 'k \<Rightarrow> 'v \<Rightarrow> ('k, 'v) dict" where
  "dict_set [] k v = [(k, v)]"
| "dict_set ((k', v') # d) k v =
     (if k' = k then (k, v) # d else (k', v') # dict_set d k v)"

text \<open>\<^verbatim>\<open>dict(pairs)\<close>: the pairs are inserted one after the other.\<close>

definition dict_of :: "('k \<times> 'v) list \<Rightarrow> ('k, 'v) dict" where
  "dict_of pairs = fold (\<lambda>(k, v) d. dict_set d k v) pairs []"

text \<open>\<^verbatim>\<open>dict(a, **b)\<close>: a copy of \<open>a\<close> updated with the entries of \<open>b\<close> in order.\<close>

definition dict_update :: "('k, 'v) dict \<Rightarrow> ('k, 'v) dict \<Rightarrow> ('k, 'v) dict" where
  "dict_update a b = fold (\<lambda>(k, v) d. dict_set d k v) b a"

definition keys :: "('k, 'v) dict \<Rightarrow> 'k list" where
  "keys d = map fst d"

text \<open>
  The exceptions that the modelled code can raise: those of Python, and the one
  Streamlit raises when a script creates two widgets with the same key.
\<close>

datatype py_error =
  ValueError | KeyError | AttributeError | TypeError | IndexError | DuplicateWidgetID

text \<open>
  A selection is what \<^verbatim>\<open>render_ui\<close> stores for a placeholder: the single string of a
  select box, or the list of strings of a multi-select. \<^verbatim>\<open>isinstance(value, list)\<close>
  tells them apart.
\<close>

datatype selection = Single string | Many "string list"

section \<open>Selection Normalizer: \<^verbatim>\<open>fix_structure\<close>\<close>

fun as_list :: "selection \<Rightarrow> selection" where
  "as_list (Many vs) = Many vs"
| "as_list (Single s) = Many [s]"

definition fix_structure :: "(string, selection) dict \<Rightarrow> (string, selection) dict" where
  "fix_structure selections =
     fold (\<lambda>(key, val) corrected_selections. dict_set corrected_selections key (as_list val))
       selections []"

fun is_list :: "selection \<Rightarrow> bool" where
  "is_list (Many vs) = True"
| "is_list (Single s) = False"

section \<open>Template Substitution\<close>

text \<open>
  \<^verbatim>\<open>s.replace(old, new)\<close> of Python: the occurrences of \<open>old\<close> are found from left
  to right without overlap and each is replaced by \<open>new\<close>; an empty \<open>old\<close> matches
  before every character and at the end.
\<close>

function str_replace :: "string \<Rightarrow> string \<Rightarrow> string \<Rightarrow> string" where
  "str_replace s [] new = new @ concat (map (\<lambda>c. c # new) s)"
| "str_replace [] (a # old) new = []"
| "str_replace (c # cs) (a # old) new =
     (if prefix (a # old) (c # cs)
      then new @ str_replace (drop (length (a # old)) (c # cs)) (a # old) new
      else c # str_replace cs (a # old) new)"
  by pat_completeness auto
termination
  by (relation "measure (\<lambda>(s, old, new). length s)") auto

text \<open>The placeholder token of a name: \<^verbatim>\<open>f"[[{key}]]"\<close>.\<close>

definition token :: "string \<Rightarrow> string" where
  "token name = ''[['' @ name @ '']]''"

text \<open>
  The body of the generation loop (lines 297--299 and 501--503):
  \<^verbatim>\<open>for key, value in combination.items():
      prompt_filled = prompt_filled.replace(f"[[{key}]]", value)\<close>
\<close>

definition fill :: "string \<Rightarrow> (string, string) dict \<Rightarrow> string" where
  "fill prompt_template combination =
     fold (\<lambda>(key, val) prompt_filled. str_replace prompt_filled (token key) val)
       combination prompt_template"

section \<open>Placeholder Scanner\<close>

text \<open>
  \<^verbatim>\<open>re.findall(r"\[\[(.*?)\]\]", template)\<close>. The dot of a Python regular expression
  matches every character but the line feed, and \<^verbatim>\<open>*?\<close> takes as few characters as
  possible: after an opening \<^verbatim>\<open>[[\<close>, \<open>lazy_close\<close> looks for the first \<^verbatim>\<open>]]\<close>
  and fails at a line feed before it. A match resumes the search after its
  closing \<^verbatim>\<open>]]\<close>; a failed attempt resumes it one character further.
\<close>

definition LF :: char where
  "LF = CHR 0x0A"

fun lazy_close :: "string \<Rightarrow> (string \<times> string) option" where
  "lazy_close [] = None"
| "lazy_close (c # cs) =
     (if prefix '']]'' (c # cs) then Some ([], drop 2 (c # cs))
      else if c = LF then None
      else (case lazy_close cs of
              None \<Rightarrow> None
            | Some (name, rest) \<Rightarrow> Some (c # name, rest)))"

lemma lazy_close_length: "lazy_close s = Some (name, rest) \<Longrightarrow> length rest < length s"
  by (induction s arbitrary: name rest) (auto split: if_splits option.splits)

function findall :: "string \<Rightarrow> string list" where
  "findall [] = []"
| "findall (c # cs) =
     (if prefix ''[['' (c # cs) then
        (case lazy_close (drop 2 (c # cs)) of
           Some (name, rest) \<Rightarrow> name # findall rest
         | None \<Rightarrow> findall cs)
      else findall cs)"
  by pat_completeness auto
termination
proof (relation "measure length")
  fix c cs x2 x y
  assume "prefix ''[['' (c # cs)" "lazy_close (drop 2 (c # cs)) = Some x2" "(x, y) = x2"
  then have "length y < length (drop 2 (c # cs))"
    using lazy_close_length [of "drop 2 (c # cs)" x y] by simp
  then show "(y, c # cs) \<in> measure length" by simp
qed auto

text \<open>\<^verbatim>\<open>[ph for ph in placeholders if ph not in all_possible_keys]\<close>\<close>

definition uncovered_placeholders :: "string list \<Rightarrow> string list \<Rightarrow> string list" where
  "uncovered_placeholders all_possible_keys placeholders =
     filter (\<lambda>ph. ph \<notin> set all_possible_keys) placeholders"

text \<open>\<^verbatim>\<open>user_input.split("\n")\<close>: an empty text gives one empty string.\<close>

fun split_lines :: "string \<Rightarrow> string list" where
  "split_lines [] = [[]]"
| "split_lines (c # cs) =
     (if c = LF then [] # split_lines cs
      else (case split_lines cs of
              [] \<Rightarrow> [[c]]
            | w # ws \<Rightarrow> (c # w) # ws))"

section \<open>Combination Expander\<close>

text \<open>
  \<^verbatim>\<open>itertools.product(*values)\<close>: the tuples in lexicographic order of positions, the
  last component varying fastest; the product of no list is the one empty tuple.
\<close>

fun itertools_product :: "'a list list \<Rightarrow> 'a list list" where
  "itertools_product [] = [[]]"
| "itertools_product (xs # xss) =
     concat (map (\<lambda>x. map (\<lambda>t. x # t) (itertools_product xss)) xs)"

text \<open>
  What iterating a selection yields: the elements of a list, the one-character strings
  of a string.
\<close>

fun iterate :: "selection \<Rightarrow> string list" where
  "iterate (Many vs) = vs"
| "iterate (Single s) = map (\<lambda>c. [c]) s"

text \<open>
  \<^verbatim>\<open>keys, values = zip(*iter_selections.items())\<close>: the items are transposed into the
  tuple of keys and the tuple of values. A dictionary with no item gives no tuple at
  all, and unpacking into two names raises \<^verbatim>\<open>ValueError\<close>.
\<close>

definition unzip_items :: "('k, 'v) dict \<Rightarrow> py_error + ('k list \<times> 'v list)" where
  "unzip_items items = (if items = [] then Inl ValueError else Inr (map fst items, map snd items))"

text \<open>
  Lines 292--293 and 494--495:
  \<^verbatim>\<open>combinations = [dict(zip(keys, v)) for v in itertools.product(*values)]\<close>
\<close>

definition expand :: "(string, selection) dict \<Rightarrow> py_error + (string, string) dict list" where
  "expand iter_selections =
     (case unzip_items iter_selections of
        Inl e \<Rightarrow> Inl e
      | Inr (ks, vals) \<Rightarrow>
          Inr (map (\<lambda>v. dict_of (zip ks v)) (itertools_product (map iterate vals))))"

section \<open>External-Record Merger\<close>

record article =
  title :: string
  description :: string
  url :: string

definition articles_to_placeholder :: "article list \<Rightarrow> (string, string) dict list" where
  "articles_to_placeholder articles =
     map (\<lambda>a. [(''SourceArticleTitle'', title a),
                (''SourceArticleDescription'', description a),
                (''SourceArticleUrl'', url a)]) articles"

text \<open>\<^verbatim>\<open>itertools.product(a, b)\<close> of two sequences: the first component varies slowest.\<close>

definition itertools_product2 :: "'a list \<Rightarrow> 'b list \<Rightarrow> ('a \<times> 'b) list" where
  "itertools_product2 xs ys = concat (map (\<lambda>x. map (\<lambda>y. (x, y)) ys) xs)"

text \<open>
  Lines 496--497:
  \<^verbatim>\<open>if based_on_real_news:
      combinations = [dict(el[0], **el[1]) for el in itertools.product(combinations, news_articles)]\<close>
\<close>

definition cross_join ::
  "(string, string) dict list \<Rightarrow> (string, string) dict list \<Rightarrow> (string, string) dict list" where
  "cross_join combinations news_articles =
     map (\<lambda>el. dict_update (fst el) (snd el)) (itertools_product2 combinations news_articles)"

definition merge_step ::
  "bool \<Rightarrow> (string, string) dict list \<Rightarrow> (string, string) dict list \<Rightarrow> (string, string) dict list" where
  "merge_step based_on_real_news combinations news_articles =
     (if based_on_real_news then cross_join combinations news_articles else combinations)"

section \<open>Option Taxonomy Reader\<close>

text \<open>
  The \<^verbatim>\<open>Components\<close> entry of the configuration file, as \<^verbatim>\<open>json.load\<close> returns it: a
  dictionary, a list of option strings, or a scalar (a string stands for every value
  that is neither a dictionary nor a list).
\<close>

datatype json = JStr string | JList "string list" | JDict "(string \<times> json) list"

text \<open>
  \<^verbatim>\<open>collect_keys(component_dict, collected_keys)\<close> appends to the list it is given and
  returns that same list. The model returns the list after the call together with the
  exception, if one was raised: \<^verbatim>\<open>.items()\<close> raises \<^verbatim>\<open>AttributeError\<close> on a value that
  is not a dictionary, and what was appended before stays appended.
\<close>

fun collect_keys :: "json \<Rightarrow> string list \<Rightarrow> py_error option \<times> string list"
  and collect_items :: "(string \<times> json) list \<Rightarrow> string list \<Rightarrow> py_error option \<times> string list"
  and collect_subs :: "(string \<times> json) list \<Rightarrow> string list \<Rightarrow> py_error option \<times> string list"
where
  "collect_keys (JDict component_dict) collected_keys = collect_items component_dict collected_keys"
| "collect_keys (JList vs) collected_keys = (Some AttributeError, collected_keys)"
| "collect_keys (JStr s) collected_keys = (Some AttributeError, collected_keys)"
| "collect_items [] collected_keys = (None, collected_keys)"
| "collect_items ((key, val) # rest) collected_keys =
     (case val of
        JDict subs \<Rightarrow>
          (case collect_subs subs (collected_keys @ [key]) of
             (Some e, acc) \<Rightarrow> (Some e, acc)
           | (None, acc) \<Rightarrow> collect_items rest acc)
      | _ \<Rightarrow> collect_items rest (collected_keys @ [key]))"
| "collect_subs [] collected_keys = (None, collected_keys)"
| "collect_subs ((sub_key, sub) # rest) collected_keys =
     (case collect_keys sub collected_keys of
        (Some e, acc) \<Rightarrow> (Some e, acc)
      | (None, acc) \<Rightarrow> collect_subs rest acc)"

text \<open>
  \<^verbatim>\<open>collect_keys(components)\<close> with the second argument left out: the list used is the
  one list object created when the \<^verbatim>\<open>def\<close> was executed. It is part of the state of
  the interpreter; the call returns that object, so the state after the call is the
  returned list.
\<close>

definition collect_keys_default ::
  "json \<Rightarrow> string list \<Rightarrow> (py_error option \<times> string list) \<times> string list" where
  "collect_keys_default component_dict default_list =
     (let r = collect_keys component_dict default_list in (r, snd r))"

text \<open>
  The operator in front of the Streamlit widgets: what a select box, a multi-select and
  a text area return, by widget key. A select box is given its options, a multi-select
  its options (which are also its default).
\<close>

record operator =
  selectbox :: "string \<Rightarrow> string list \<Rightarrow> string"
  multiselect :: "string \<Rightarrow> string list \<Rightarrow> string list"
  text_area :: "string \<Rightarrow> string"

fun render_nested ::
  "operator \<Rightarrow> string \<Rightarrow> string \<Rightarrow> (string \<times> json) list \<Rightarrow> (string, selection) dict \<Rightarrow>
   (string, selection) dict" where
  "render_nested ui key_prefix key [] user_selections = user_selections"
| "render_nested ui key_prefix key ((nested_key, nested_value) # rest) user_selections =
     (case nested_value of
        JList opts \<Rightarrow>
          render_nested ui key_prefix key rest
            (dict_set user_selections nested_key
               (Many (multiselect ui (key_prefix @ ''multiselect-'' @ key @ ''-'' @ nested_key) opts)))
      | _ \<Rightarrow> render_nested ui key_prefix key rest user_selections)"

fun render_items ::
  "operator \<Rightarrow> string \<Rightarrow> (string \<times> json) list \<Rightarrow> (string, selection) dict \<Rightarrow>
   py_error + (string, selection) dict" where
  "render_items ui key_prefix [] user_selections = Inr user_selections"
| "render_items ui key_prefix ((key, val) # rest) user_selections =
     (case val of
        JDict variants \<Rightarrow>
          (let selected_option = selectbox ui (key_prefix @ ''selectbox-'' @ key) (map fst variants);
               user_selections1 = dict_set user_selections key (Single selected_option)
           in case map_of variants selected_option of
                None \<Rightarrow> Inl KeyError
              | Some (JDict nested_dict) \<Rightarrow>
                  render_items ui key_prefix rest
                    (render_nested ui key_prefix key nested_dict user_selections1)
              | Some _ \<Rightarrow> Inl AttributeError)
      | JList opts \<Rightarrow>
          render_items ui key_prefix rest
            (dict_set user_selections key
               (Many (multiselect ui (key_prefix @ ''multiselect-'' @ key) opts)))
      | JStr s \<Rightarrow> render_items ui key_prefix rest user_selections)"

definition render_ui :: "operator \<Rightarrow> json \<Rightarrow> string \<Rightarrow> py_error + (string, selection) dict" where
  "render_ui ui component_dict key_prefix =
     (case component_dict of
        JDict items \<Rightarrow> render_items ui key_prefix items []
      | _ \<Rightarrow> Inl AttributeError)"


text \<open>
  The number of dictionary levels of a configuration value. A taxonomy of the two
  supported shapes (category to list, or category to variant to sub-category to list)
  has at most three.
\<close>

fun depth :: "json \<Rightarrow> nat"
  and depth_items :: "(string \<times> json) list \<Rightarrow> nat" where
  "depth (JDict items) = Suc (depth_items items)"
| "depth (JList vs) = 0"
| "depth (JStr s) = 0"
| "depth_items [] = 0"
| "depth_items ((k, v) # rest) = max (depth v) (depth_items rest)"

text \<open>
  The taxonomy cut down to the two supported levels: every sub-category whose value is
  not a list of options is removed.
\<close>

fun is_option_list :: "json \<Rightarrow> bool" where
  "is_option_list (JList vs) = True"
| "is_option_list _ = False"

fun truncate_variant :: "json \<Rightarrow> json" where
  "truncate_variant (JDict nested_dict) = JDict (filter (\<lambda>(nk, nv). is_option_list nv) nested_dict)"
| "truncate_variant v = v"

fun truncate_category :: "json \<Rightarrow> json" where
  "truncate_category (JDict variants) = JDict (map (\<lambda>(vk, vv). (vk, truncate_variant vv)) variants)"
| "truncate_category v = v"

fun truncate_taxonomy :: "json \<Rightarrow> json" where
  "truncate_taxonomy (JDict component_dict) = JDict (map (\<lambda>(k, v). (k, truncate_category v)) component_dict)"
| "truncate_taxonomy v = v"

text \<open>
  A function of an accumulator that only appends to it, and whose outcome does not
  depend on what the accumulator held.
\<close>

definition accumulates :: "(string list \<Rightarrow> py_error option \<times> string list) \<Rightarrow> bool" where
  "accumulates f = (\<forall>acc. f acc = (fst (f []), acc @ snd (f [])))"

text \<open>
  The shape that \<^verbatim>\<open>collect_keys\<close> can walk: the taxonomy is a mapping, and wherever the
  value of a category is a mapping (of variants), the value of every variant is again
  such a mapping. Lists and scalars may be the value of a category, not of a variant.
\<close>

fun variants_are_mappings :: "json \<Rightarrow> bool"
  and categories_ok :: "(string \<times> json) list \<Rightarrow> bool"
  and variants_ok :: "(string \<times> json) list \<Rightarrow> bool" where
  "variants_are_mappings (JDict categories) = categories_ok categories"
| "variants_are_mappings (JList vs) = False"
| "variants_are_mappings (JStr s) = False"
| "categories_ok [] = True"
| "categories_ok ((category, val) # rest) =
     ((case val of JDict variants \<Rightarrow> variants_ok variants | _ \<Rightarrow> True) \<and> categories_ok rest)"
| "variants_ok [] = True"
| "variants_ok ((variant, val) # rest) = (variants_are_mappings val \<and> variants_ok rest)"

text \<open>A list of options under a chain of nested mappings, one for each of the given keys.\<close>

fun chain :: "string list \<Rightarrow> string list \<Rightarrow> json" where
  "chain [] leaf = JList leaf"
| "chain (k # ks) leaf = JDict [(k, chain ks leaf)]"

text \<open>
  A taxonomy with two levels more than supported, one with a single level more, and an
  operator who keeps every default.
\<close>

definition one_level_deeper :: json where
  "one_level_deeper =
     JDict [(''Style'', JDict [(''News'', JDict [(''Tone'', JDict [(''Formal'', JList [''Dry''])])])])]"

definition deep_taxonomy :: json where
  "deep_taxonomy =
     JDict [(''Style'', JDict [(''News'',
        JDict [(''Tone'', JList [''Dry'', ''Warm'']),
               (''Register'', JDict [(''Formal'', JDict [(''Politeness'', JList [''High''])])])])])]"

definition default_operator :: operator where
  "default_operator = \<lparr> selectbox = (\<lambda>key opts. case opts of [] \<Rightarrow> [] | x # xs \<Rightarrow> x),
      multiselect = (\<lambda>key opts. opts), text_area = (\<lambda>key. []) \<rparr>"

section \<open>Templates as segments\<close>

text \<open>
  A template in which a double opening bracket only opens a placeholder is a sequence
  of literal texts and placeholders: the names have no bracket, and a text has no
  \<^verbatim>\<open>[[\<close> and does not end in \<^verbatim>\<open>[\<close> (single brackets, as in \<^verbatim>\<open>[1]\<close>, are
  ordinary text). On such a template the substitution the specification describes
  replaces every placeholder that is a key of the combination by its value and leaves
  the rest as it is.
\<close>

definition bracket_free :: "string \<Rightarrow> bool" where
  "bracket_free s = (CHR ''['' \<notin> set s \<and> CHR '']'' \<notin> set s)"

definition plain_text :: "string \<Rightarrow> bool" where
  "plain_text s = (\<not> sublist ''[['' s \<and> (s = [] \<or> last s \<noteq> CHR ''[''))"

datatype segment = Text string | Placeholder string

fun render_segment :: "segment \<Rightarrow> string" where
  "render_segment (Text s) = s"
| "render_segment (Placeholder name) = token name"

definition render :: "segment list \<Rightarrow> string" where
  "render segs = concat (map render_segment segs)"

fun substitute :: "(string, string) dict \<Rightarrow> segment \<Rightarrow> segment" where
  "substitute combination (Text s) = Text s"
| "substitute combination (Placeholder name) =
     (case map_of combination name of Some v \<Rightarrow> Text v | None \<Rightarrow> Placeholder name)"

fun plain :: "segment \<Rightarrow> bool" where
  "plain (Text s) = plain_text s"
| "plain (Placeholder name) = bracket_free name"

section \<open>The two generation pages\<close>

text \<open>
  Lines 253--257 and 405--409: every unknown placeholder gets a text area, and the lines
  typed into it become the selection of the placeholder. The key of the text area is
  made of the placeholder name, so an unknown placeholder that occurs a second time in
  the scanned template asks for a second widget with a key already used, and Streamlit
  raises. The third argument lists the keys of the text areas created so far. (The keys
  of the other widgets of the two pages start differently.)
\<close>

fun add_uncovered ::
  "operator \<Rightarrow> string \<Rightarrow> string list \<Rightarrow> string list \<Rightarrow> (string, selection) dict \<Rightarrow>
   py_error + (string, selection) dict" where
  "add_uncovered ui key_prefix used [] user_selections = Inr user_selections"
| "add_uncovered ui key_prefix used (placeholder # rest) user_selections =
     (if key_prefix @ placeholder \<in> set used then Inl DuplicateWidgetID
      else add_uncovered ui key_prefix ((key_prefix @ placeholder) # used) rest
             (dict_set user_selections placeholder
                (Many (split_lines (text_area ui (key_prefix @ placeholder))))))"

text \<open>
  The prompt preview of \<^verbatim>\<open>automatic_news_generation_ui\<close> (lines 260--267) substitutes
  the first selection of every placeholder. For an empty list of selections the
  expression \<^verbatim>\<open>selections[0] if isinstance(selections, list) and selections else selections\<close>
  is that empty list, and \<^verbatim>\<open>str.replace\<close> raises \<^verbatim>\<open>TypeError\<close> on it.
\<close>

fun preview_loop :: "string \<Rightarrow> (string, selection) dict \<Rightarrow> py_error + string" where
  "preview_loop prompt [] = Inr prompt"
| "preview_loop prompt ((placeholder, selections) # rest) =
     (case selections of
        Many [] \<Rightarrow> Inl TypeError
      | Many (first # others) \<Rightarrow> preview_loop (str_replace prompt (token placeholder) first) rest
      | Single s \<Rightarrow> preview_loop (str_replace prompt (token placeholder) s) rest)"

text \<open>
  \<^verbatim>\<open>automatic_news_generation_ui\<close> with the Generate button pressed: the filled prompts
  of the generation loop, in order, or the exception that ends the script before. The
  inputs are the operator, the prompt template and the components of the configuration
  file, the default list of \<^verbatim>\<open>collect_keys\<close> and the content of the text field
  "Prompt Template". Calling the generator and saving the fragments is left to the
  collaborators and assumed to return.
\<close>

definition automatic_news_generation_ui ::
  "operator \<Rightarrow> string \<Rightarrow> json \<Rightarrow> string list \<Rightarrow> string \<Rightarrow> py_error + string list" where
  "automatic_news_generation_ui ui prompt_template components default_list user_prompt_template =
     (case collect_keys_default components default_list of
        ((Some e, acc), dl) \<Rightarrow> Inl e
      | ((None, all_possible_keys), dl) \<Rightarrow>
          (let placeholders = findall prompt_template;
               uncovered = uncovered_placeholders all_possible_keys placeholders
           in case render_ui ui components [] of
                Inl e \<Rightarrow> Inl e
              | Inr rendered \<Rightarrow>
                  (case add_uncovered ui ''placeholder_'' [] uncovered rendered of
                     Inl e \<Rightarrow> Inl e
                   | Inr user_selections \<Rightarrow>
                       (case preview_loop prompt_template user_selections of
                          Inl e \<Rightarrow> Inl e
                        | Inr prompt \<Rightarrow>
                            (case expand (fix_structure user_selections) of
                               Inl e \<Rightarrow> Inl e
                             | Inr combinations \<Rightarrow>
                                 Inr (map (fill prompt_template) combinations))))))"

text \<open>
  The inputs of one run of \<^verbatim>\<open>news_from_trends_ui\<close>: the entries of the configuration
  file, the two check boxes, the content of the text field "Prompt Template", what
  \<^verbatim>\<open>get_trends\<close> returns for the selected source, and \<^verbatim>\<open>get_news\<close>.
\<close>

record news_run =
  prompt_template_seeded_based :: string
  prompt_template_news_based :: string
  components :: json
  topic_list :: "string list"
  automated_trends :: bool
  based_on_real_news :: bool
  user_prompt_template :: string
  trends :: "string list"
  get_news :: "string \<Rightarrow> string \<Rightarrow> article option"

text \<open>Lines 376--378.\<close>

definition news_possible_keys :: "json \<Rightarrow> string list \<Rightarrow> py_error + string list" where
  "news_possible_keys comps default_list =
     (case collect_keys_default comps default_list of
        ((Some e, acc), dl) \<Rightarrow> Inl e
      | ((None, all_possible_keys), dl) \<Rightarrow>
          Inr (all_possible_keys @ [''SeedPhrase'']
                 @ [''SourceArticleTitle'', ''SourceArticleDescription'', ''SourceArticleUrl'']))"

text \<open>
  \<^verbatim>\<open>user_selections["ISOLanguage"][0]\<close> and the retrieval loop of lines 459--462.
\<close>

fun first_item :: "selection \<Rightarrow> py_error + string" where
  "first_item (Many []) = Inl IndexError"
| "first_item (Many (v # vs)) = Inr v"
| "first_item (Single []) = Inl IndexError"
| "first_item (Single (c # cs)) = Inr [c]"

fun retrieve_news ::
  "(string \<Rightarrow> string \<Rightarrow> article option) \<Rightarrow> (string, selection) dict \<Rightarrow> string list \<Rightarrow>
   article list \<Rightarrow> py_error + article list" where
  "retrieve_news fetch user_selections [] news_articles = Inr news_articles"
| "retrieve_news fetch user_selections (news_keyword # rest) news_articles =
     (case map_of user_selections ''ISOLanguage'' of
        None \<Rightarrow> Inl KeyError
      | Some s \<Rightarrow>
          (case first_item s of
             Inl e \<Rightarrow> Inl e
           | Inr lang \<Rightarrow>
               (case fetch news_keyword lang of
                  None \<Rightarrow> retrieve_news fetch user_selections rest news_articles
                | Some news \<Rightarrow> retrieve_news fetch user_selections rest (news_articles @ [news]))))"

text \<open>
  \<^verbatim>\<open>news_from_trends_ui\<close> with the Generate button pressed: the filled prompts of the
  generation loop (lines 500--503), or the exception raised before. The preview of
  this function substitutes strings only and cannot raise; it is left out.
\<close>

definition news_from_trends_ui :: "operator \<Rightarrow> string list \<Rightarrow> news_run \<Rightarrow> py_error + string list" where
  "news_from_trends_ui ui default_list run =
     (case news_possible_keys (components run) default_list of
        Inl e \<Rightarrow> Inl e
      | Inr all_possible_keys \<Rightarrow>
          (case render_ui ui (components run) ''automated_news'' of
             Inl e \<Rightarrow> Inl e
           | Inr rendered \<Rightarrow>
               (let trends_list =
                      (if automated_trends run then trends run
                       else multiselect ui ''automated_news_selected_topics'' (topic_list run));
                    prompt_template =
                      (if based_on_real_news run then prompt_template_news_based run
                       else prompt_template_seeded_based run);
                    placeholders = findall (user_prompt_template run);
                    uncovered = uncovered_placeholders all_possible_keys placeholders
                in case add_uncovered ui ''automated_news_placeholder_'' [] uncovered rendered of
                     Inl e \<Rightarrow> Inl e
                   | Inr user_selections \<Rightarrow>
                       (case (if based_on_real_news run
                              then retrieve_news (get_news run) user_selections trends_list []
                              else Inr []) of
                          Inl e \<Rightarrow> Inl e
                        | Inr news_articles \<Rightarrow>
                            (let iter_selections =
                                   dict_set (fix_structure user_selections) ''SeedPhrase''
                                     (Many trends_list)
                             in case expand iter_selections of
                                  Inl e \<Rightarrow> Inl e
                                | Inr combinations \<Rightarrow>
                                    Inr (map (fill prompt_template)
                                           (merge_step (based_on_real_news run) combinations
                                              (articles_to_placeholder news_articles))))))))"

text \<open>A run on a configuration whose seeded template has a placeholder outside the taxonomy.\<close>

definition example_run :: news_run where
  "example_run = \<lparr> prompt_template_seeded_based = ''Hello [[Foo]]'',
     prompt_template_news_based = ''About [[SourceArticleTitle]]'',
     components = JDict [(''ISOLanguage'', JList [''en''])],
     topic_list = [''Cats''],
     automated_trends = False,
     based_on_real_news = False,
     user_prompt_template = ''Hello [[Foo]]'',
     trends = [],
     get_news = (\<lambda>keyword lang. None) \<rparr>"

section \<open>Dictionaries: basic facts\<close>

lemma dict_set_fresh: "k \<notin> set (map fst d) \<Longrightarrow> dict_set d k v = d @ [(k, v)]"
  by (induction d) auto

lemma fold_dict_set_distinct:
  "distinct (map fst acc @ map fst ps) \<Longrightarrow>
   fold (\<lambda>(k, v) d. dict_set d k (f v)) ps acc = acc @ map (\<lambda>(k, v). (k, f v)) ps"
proof (induction ps arbitrary: acc)
  case Nil
  then show ?case by simp
next
  case (Cons p ps)
  obtain k v where p: "p = (k, v)" by (cases p)
  from Cons.prems p have fresh: "k \<notin> set (map fst acc)" by auto
  from Cons.prems p have "distinct (map fst (acc @ [(k, f v)]) @ map fst ps)" by auto
  from Cons.IH [OF this] show ?case
    by (simp add: p dict_set_fresh [OF fresh])
qed

lemma dict_of_distinct: "distinct (map fst ps) \<Longrightarrow> dict_of ps = ps"
  using fold_dict_set_distinct [of "[]" ps "\<lambda>v. v"] by (simp add: dict_of_def)

lemma fix_structure_map:
  "distinct (map fst sel) \<Longrightarrow> fix_structure sel = map (\<lambda>(k, v). (k, as_list v)) sel"
  using fold_dict_set_distinct [of "[]" sel as_list] by (simp add: fix_structure_def)

lemma as_list_idem: "as_list (as_list v) = as_list v"
  by (cases v) simp_all

lemma as_list_id: "is_list v \<Longrightarrow> as_list v = v"
  by (cases v) simp_all

lemma is_list_as_list: "is_list (as_list v)"
  by (cases v) simp_all

section \<open>Selection Normalizer: properties\<close>

text \<open>
  Claim C7. For every mapping whose values are a single string or a list of strings
  (a dictionary, so its keys are pairwise distinct), \<^verbatim>\<open>fix_structure\<close> returns a
  mapping with the same keys in the same order; the value at each position is the
  original one if it is a list and the singleton list of it otherwise, so nothing is
  dropped or reordered and every value of the result is a list. The function is total
  (it has no error result), a mapping whose values are all lists is returned unchanged,
  and normalizing twice is the same as normalizing once.
\<close>

theorem fix_structure_normalizes:
  assumes "distinct (keys sel)"
  shows "keys (fix_structure sel) = keys sel
    \<and> length (fix_structure sel) = length sel
    \<and> (\<forall>i < length sel. snd (fix_structure sel ! i) =
           (case snd (sel ! i) of Many vs \<Rightarrow> Many vs | Single s \<Rightarrow> Many [s]))
    \<and> (\<forall>(k, v) \<in> set (fix_structure sel). is_list v)
    \<and> ((\<forall>(k, v) \<in> set sel. is_list v) \<longrightarrow> fix_structure sel = sel)
    \<and> fix_structure (fix_structure sel) = fix_structure sel"
proof -
  have m: "fix_structure sel = map (\<lambda>(k, v). (k, as_list v)) sel"
    using assms by (simp add: keys_def fix_structure_map)
  have k: "keys (fix_structure sel) = keys sel"
    by (simp add: m keys_def case_prod_unfold comp_def)
  have l: "length (fix_structure sel) = length sel"
    by (simp add: m)
  have v: "\<forall>i < length sel. snd (fix_structure sel ! i) =
           (case snd (sel ! i) of Many vs \<Rightarrow> Many vs | Single s \<Rightarrow> Many [s])"
    by (auto simp: m case_prod_unfold split: selection.splits)
  have a: "\<forall>(k, v) \<in> set (fix_structure sel). is_list v"
    by (auto simp: m is_list_as_list)
  have u: "(\<forall>(k, v) \<in> set sel. is_list v) \<longrightarrow> fix_structure sel = sel"
  proof
    assume "\<forall>(k, v) \<in> set sel. is_list v"
    then have "map (\<lambda>(k, v). (k, as_list v)) sel = map (\<lambda>p. p) sel"
      by (intro map_cong) (auto simp: as_list_id)
    then show "fix_structure sel = sel" by (simp add: m)
  qed
  have "distinct (map fst (fix_structure sel))"
    using k assms by (simp add: keys_def)
  then have "fix_structure (fix_structure sel) =
      map (\<lambda>(k, v). (k, as_list v)) (map (\<lambda>(k, v). (k, as_list v)) sel)"
    by (simp add: fix_structure_map m)
  then have i: "fix_structure (fix_structure sel) = fix_structure sel"
    by (simp add: m case_prod_unfold comp_def as_list_idem)
  from k l v a u i show ?thesis by blast
qed

theorem fix_structure_normalizes_witness:
  "distinct (keys [(''Style'', Single ''Formal''), (''Tone'', Many [''Dry'', ''Warm''])])
   \<and> fix_structure [(''Style'', Single ''Formal''), (''Tone'', Many [''Dry'', ''Warm''])]
       = [(''Style'', Many [''Formal'']), (''Tone'', Many [''Dry'', ''Warm''])]
   \<and> fix_structure (fix_structure [(''Style'', Single ''Formal''), (''Tone'', Many [''Dry'', ''Warm''])])
       = fix_structure [(''Style'', Single ''Formal''), (''Tone'', Many [''Dry'', ''Warm''])]"
proof -
  have d: "distinct (keys [(''Style'', Single ''Formal''), (''Tone'', Many [''Dry'', ''Warm''])])"
    by (simp add: keys_def)
  have e: "fix_structure [(''Style'', Single ''Formal''), (''Tone'', Many [''Dry'', ''Warm''])]
       = [(''Style'', Many [''Formal'']), (''Tone'', Many [''Dry'', ''Warm''])]"
    by (simp add: fix_structure_def)
  from d e fix_structure_normalizes [OF d] show ?thesis by blast
qed

section \<open>External-Record Merger: properties\<close>

lemma map_of_dict_set: "map_of (dict_set d k v) = (map_of d)(k \<mapsto> v)"
  by (induction d) (auto simp: fun_eq_iff)

lemma keys_dict_set: "set (keys (dict_set d k v)) = insert k (set (keys d))"
proof (induction d)
  case Nil
  then show ?case by (simp add: keys_def)
next
  case (Cons p d)
  obtain k' v' where p: "p = (k', v')" by (cases p)
  from Cons.IH show ?case by (simp add: p keys_def insert_commute)
qed

lemma map_of_dict_update: "map_of (dict_update a b) = map_of a ++ map_of (rev b)"
  unfolding dict_update_def
proof (induction b arbitrary: a)
  case Nil
  then show ?case by simp
next
  case (Cons p b)
  obtain k v where p: "p = (k, v)" by (cases p)
  show ?case by (simp add: p Cons.IH map_of_dict_set fun_eq_iff map_add_def split: option.splits)
qed

lemma keys_dict_update: "set (keys (dict_update a b)) = set (keys a) \<union> set (keys b)"
  unfolding dict_update_def
proof (induction b arbitrary: a)
  case Nil
  then show ?case by (simp add: keys_def)
next
  case (Cons p b)
  obtain k v where p: "p = (k, v)" by (cases p)
  show ?case using Cons.IH [of "dict_set a k v"] by (simp add: p keys_dict_set) (simp add: keys_def)
qed

lemma itertools_product2_product: "itertools_product2 xs ys = List.product xs ys"
  by (induction xs) (simp_all add: itertools_product2_def)

lemma cross_join_nth:
  assumes "i < length cs" "j < length ps"
  shows "cross_join cs ps ! (i * length ps + j) = dict_update (cs ! i) (ps ! j)"
proof -
  have lt: "i * length ps + j < length cs * length ps"
  proof -
    have "i * length ps + j < i * length ps + length ps" using assms by simp
    also have "\<dots> = Suc i * length ps" by simp
    also have "\<dots> \<le> length cs * length ps" using assms by (intro mult_le_mono1) simp
    finally show ?thesis .
  qed
  have d: "(i * length ps + j) div length ps = i" and m: "(i * length ps + j) mod length ps = j"
  proof -
    from assms(2) have "0 < length ps" by (cases ps) simp_all
    then show "(i * length ps + j) div length ps = i" using assms(2) by simp
    show "(i * length ps + j) mod length ps = j" using assms(2) by simp
  qed
  have "List.product cs ps ! (i * length ps + j) = (cs ! i, ps ! j)"
    using product_nth [OF lt] by (simp only: d m)
  then show ?thesis using lt
    by (simp add: cross_join_def itertools_product2_product)
qed

lemma cross_join_length: "length (cross_join cs ps) = length cs * length ps"
  by (simp add: cross_join_def itertools_product2_product)

text \<open>
  Claim C4. For \<open>N\<close> combinations and \<open>M\<close> articles the merger returns \<open>N * M\<close>
  mappings, the combinations varying slowest: the mapping at position \<open>i * M + j\<close> is
  combination \<open>i\<close> updated with the three placeholder entries of article \<open>j\<close>, so each
  pair occurs at exactly one position. Its keys are the keys of the combination and the
  three fixed keys, the three fixed keys carry the title, description and URL of the
  article, and every other key keeps the value of the combination.
\<close>

theorem cross_join_total:
  "length (cross_join cs (articles_to_placeholder arts)) = length cs * length arts
   \<and> (\<forall>i < length cs. \<forall>j < length arts.
        (let m = cross_join cs (articles_to_placeholder arts) ! (i * length arts + j) in
           m = dict_update (cs ! i)
                 [(''SourceArticleTitle'', title (arts ! j)),
                  (''SourceArticleDescription'', description (arts ! j)),
                  (''SourceArticleUrl'', url (arts ! j))]
         \<and> set (keys m) = set (keys (cs ! i))
               \<union> {''SourceArticleTitle'', ''SourceArticleDescription'', ''SourceArticleUrl''}
         \<and> map_of m ''SourceArticleTitle'' = Some (title (arts ! j))
         \<and> map_of m ''SourceArticleDescription'' = Some (description (arts ! j))
         \<and> map_of m ''SourceArticleUrl'' = Some (url (arts ! j))
         \<and> (\<forall>k. k \<notin> {''SourceArticleTitle'', ''SourceArticleDescription'', ''SourceArticleUrl''}
               \<longrightarrow> map_of m k = map_of (cs ! i) k)))"
proof (intro conjI allI impI)
  show "length (cross_join cs (articles_to_placeholder arts)) = length cs * length arts"
    by (simp add: cross_join_length articles_to_placeholder_def)
next
  fix i j assume i: "i < length cs" and j: "j < length arts"
  let ?p = "[(''SourceArticleTitle'', title (arts ! j)),
             (''SourceArticleDescription'', description (arts ! j)),
             (''SourceArticleUrl'', url (arts ! j))]"
  have n: "cross_join cs (articles_to_placeholder arts) ! (i * length arts + j)
      = dict_update (cs ! i) ?p"
    using cross_join_nth [of i cs j "articles_to_placeholder arts"] i j
    by (simp add: articles_to_placeholder_def)
  show "let m = cross_join cs (articles_to_placeholder arts) ! (i * length arts + j) in
           m = dict_update (cs ! i) ?p
         \<and> set (keys m) = set (keys (cs ! i))
               \<union> {''SourceArticleTitle'', ''SourceArticleDescription'', ''SourceArticleUrl''}
         \<and> map_of m ''SourceArticleTitle'' = Some (title (arts ! j))
         \<and> map_of m ''SourceArticleDescription'' = Some (description (arts ! j))
         \<and> map_of m ''SourceArticleUrl'' = Some (url (arts ! j))
         \<and> (\<forall>k. k \<notin> {''SourceArticleTitle'', ''SourceArticleDescription'', ''SourceArticleUrl''}
               \<longrightarrow> map_of m k = map_of (cs ! i) k)"
    unfolding Let_def n
    by (simp add: keys_dict_update map_of_dict_update map_add_def) (auto simp: keys_def)
qed

theorem cross_join_total_witness:
  "length (cross_join [[(''Tone'', ''Dry'')], [(''Tone'', ''Warm'')]]
      (articles_to_placeholder
         [\<lparr>title = ''T1'', description = ''D1'', url = ''U1''\<rparr>,
          \<lparr>title = ''T2'', description = ''D2'', url = ''U2''\<rparr>,
          \<lparr>title = ''T3'', description = ''D3'', url = ''U3''\<rparr>])) = 2 * 3
   \<and> cross_join [[(''Tone'', ''Dry'')], [(''Tone'', ''Warm'')]]
      (articles_to_placeholder
         [\<lparr>title = ''T1'', description = ''D1'', url = ''U1''\<rparr>,
          \<lparr>title = ''T2'', description = ''D2'', url = ''U2''\<rparr>,
          \<lparr>title = ''T3'', description = ''D3'', url = ''U3''\<rparr>]) ! (1 * 3 + 2)
      = [(''Tone'', ''Warm''), (''SourceArticleTitle'', ''T3''),
         (''SourceArticleDescription'', ''D3''), (''SourceArticleUrl'', ''U3'')]"
proof -
  let ?cs = "[[(''Tone'', ''Dry'')], [(''Tone'', ''Warm'')]]"
  let ?arts = "[\<lparr>title = ''T1'', description = ''D1'', url = ''U1''\<rparr>,
          \<lparr>title = ''T2'', description = ''D2'', url = ''U2''\<rparr>,
          \<lparr>title = ''T3'', description = ''D3'', url = ''U3''\<rparr>]"
  let ?p = "[(''SourceArticleTitle'', title (?arts ! 2)),
             (''SourceArticleDescription'', description (?arts ! 2)),
             (''SourceArticleUrl'', url (?arts ! 2))]"
  note t = cross_join_total [of ?cs ?arts]
  have len: "length (cross_join ?cs (articles_to_placeholder ?arts)) = length ?cs * length ?arts"
    using t by (rule conjunct1)
  have "let m = cross_join ?cs (articles_to_placeholder ?arts) ! (1 * length ?arts + 2) in
          m = dict_update (?cs ! 1) ?p
        \<and> set (keys m) = set (keys (?cs ! 1))
              \<union> {''SourceArticleTitle'', ''SourceArticleDescription'', ''SourceArticleUrl''}
        \<and> map_of m ''SourceArticleTitle'' = Some (title (?arts ! 2))
        \<and> map_of m ''SourceArticleDescription'' = Some (description (?arts ! 2))
        \<and> map_of m ''SourceArticleUrl'' = Some (url (?arts ! 2))
        \<and> (\<forall>k. k \<notin> {''SourceArticleTitle'', ''SourceArticleDescription'', ''SourceArticleUrl''}
              \<longrightarrow> map_of m k = map_of (?cs ! 1) k)"
    by (rule t [THEN conjunct2, rule_format]) simp_all
  then have nth: "cross_join ?cs (articles_to_placeholder ?arts) ! (1 * length ?arts + 2)
           = dict_update (?cs ! 1) ?p"
    unfolding Let_def by (rule conjunct1)
  from len nth show ?thesis
    by (simp add: articles_to_placeholder_def dict_update_def eval_nat_numeral)
qed

section \<open>External-Record Merger: no article\<close>

text \<open>
  Claim C3, as the code has it. When merging is engaged (\<^verbatim>\<open>based_on_real_news\<close>) and
  no article was retrieved, the cross join is taken all the same and the result is the
  empty list: every option combination is discarded. The combinations of the expander
  pass unmodified only when merging is not engaged.
\<close>

theorem merge_step_empty_records:
  "merge_step True combinations (articles_to_placeholder []) = []
   \<and> merge_step False combinations news_articles = combinations"
  by (simp add: merge_step_def cross_join_def itertools_product2_def articles_to_placeholder_def)

theorem merge_step_empty_records_counterexample:
  "expand [(''Tone'', Many [''Dry''])] = Inr [[(''Tone'', ''Dry'')]]
   \<and> merge_step True [[(''Tone'', ''Dry'')]] (articles_to_placeholder []) = []
   \<and> merge_step True [[(''Tone'', ''Dry'')]] (articles_to_placeholder []) \<noteq> [[(''Tone'', ''Dry'')]]"
  by (simp add: merge_step_def cross_join_def itertools_product2_def articles_to_placeholder_def
      expand_def unzip_items_def dict_of_def)

section \<open>Option Taxonomy Reader: properties\<close>

lemma accumulatesD: "accumulates f \<Longrightarrow> f acc = (fst (f []), acc @ snd (f []))"
  unfolding accumulates_def by (erule spec)

lemma accumulates_seq:
  assumes f: "accumulates f" and g: "accumulates g"
  shows "accumulates (\<lambda>acc. case f acc of (Some e, a) \<Rightarrow> (Some e, a) | (None, a) \<Rightarrow> g a)"
proof -
  obtain e1 k1 where f0: "f [] = (e1, k1)" by (cases "f []")
  obtain e2 k2 where g0: "g [] = (e2, k2)" by (cases "g []")
  have fa: "f acc = (e1, acc @ k1)" for acc
    by (subst accumulatesD [OF f]) (simp add: f0)
  have ga: "g acc = (e2, acc @ k2)" for acc
    by (subst accumulatesD [OF g]) (simp add: g0)
  show ?thesis
    unfolding accumulates_def fa ga by (cases e1) simp_all
qed

lemma accumulates_subs:
  assumes "\<And>k v. (k, v) \<in> set subs \<Longrightarrow> accumulates (collect_keys v)"
  shows "accumulates (collect_subs subs)"
  using assms
proof (induction subs)
  case Nil
  show ?case by (simp add: accumulates_def)
next
  case (Cons p rest)
  obtain k v where p: "p = (k, v)" by (cases p)
  have 1: "accumulates (collect_keys v)" by (rule Cons.prems [of k]) (simp add: p)
  have 2: "accumulates (collect_subs rest)"
  proof (rule Cons.IH)
    fix k' v' assume "(k', v') \<in> set rest"
    then show "accumulates (collect_keys v')" by (intro Cons.prems [of k']) simp
  qed
  have "collect_subs (p # rest) =
     (\<lambda>acc. case collect_keys v acc of (Some e, a) \<Rightarrow> (Some e, a) | (None, a) \<Rightarrow> collect_subs rest a)"
    by (simp add: p fun_eq_iff)
  then show ?case using accumulates_seq [OF 1 2] by simp
qed

lemma accumulates_push:
  assumes "accumulates g"
  shows "accumulates (\<lambda>acc. g (acc @ [key]))"
proof -
  obtain e k where g0: "g [] = (e, k)" by (cases "g []")
  have ga: "g acc = (e, acc @ k)" for acc
    by (subst accumulatesD [OF assms]) (simp add: g0)
  show ?thesis unfolding accumulates_def ga by simp
qed

lemma accumulates_items:
  assumes "\<And>k subs. (k, JDict subs) \<in> set items \<Longrightarrow> accumulates (collect_subs subs)"
  shows "accumulates (collect_items items)"
  using assms
proof (induction items)
  case Nil
  show ?case by (simp add: accumulates_def)
next
  case (Cons p rest)
  obtain key val where p: "p = (key, val)" by (cases p)
  have r: "accumulates (collect_items rest)"
  proof (rule Cons.IH)
    fix k subs assume "(k, JDict subs) \<in> set rest"
    then show "accumulates (collect_subs subs)" by (intro Cons.prems [of k]) simp
  qed
  show ?case
  proof (cases val)
    case (JDict subs)
    have "accumulates (collect_subs subs)"
      by (rule Cons.prems [of key]) (simp add: p JDict)
    then have 1: "accumulates (\<lambda>acc. collect_subs subs (acc @ [key]))"
      by (rule accumulates_push)
    have "collect_items (p # rest) =
       (\<lambda>acc. case collect_subs subs (acc @ [key]) of
                 (Some e, a) \<Rightarrow> (Some e, a) | (None, a) \<Rightarrow> collect_items rest a)"
      by (simp add: p JDict fun_eq_iff)
    then show ?thesis using accumulates_seq [OF 1 r] by simp
  next
    case (JList vs)
    have "collect_items (p # rest) = (\<lambda>acc. collect_items rest (acc @ [key]))"
      by (simp add: p JList fun_eq_iff)
    then show ?thesis using accumulates_push [OF r] by simp
  next
    case (JStr s)
    have "collect_items (p # rest) = (\<lambda>acc. collect_items rest (acc @ [key]))"
      by (simp add: p JStr fun_eq_iff)
    then show ?thesis using accumulates_push [OF r] by simp
  qed
qed

lemma accumulates_both:
  "accumulates (collect_keys d) \<and> (\<forall>subs. d = JDict subs \<longrightarrow> accumulates (collect_subs subs))"
proof (induction d)
  case (JStr s)
  show ?case by (simp add: accumulates_def)
next
  case (JList vs)
  show ?case by (simp add: accumulates_def)
next
  case (JDict items)
  have ih: "accumulates (collect_keys v) \<and> (\<forall>subs. v = JDict subs \<longrightarrow> accumulates (collect_subs subs))"
    if "(k, v) \<in> set items" for k v
    using JDict.IH [OF that] by simp
  have "accumulates (collect_items items)"
    by (rule accumulates_items) (use ih in blast)
  moreover have "collect_keys (JDict items) = collect_items items" by (simp add: fun_eq_iff)
  moreover have "accumulates (collect_subs items)"
    by (rule accumulates_subs) (use ih in blast)
  ultimately show ?case by simp
qed

lemma collect_keys_append:
  "collect_keys d acc = (fst (collect_keys d []), acc @ snd (collect_keys d []))"
  by (rule accumulatesD) (rule accumulates_both [THEN conjunct1])



lemma render_nested_filter:
  "render_nested ui pre key (filter (\<lambda>(nk, nv). is_option_list nv) nested) sel
     = render_nested ui pre key nested sel"
proof (induction nested arbitrary: sel)
  case Nil
  show ?case by simp
next
  case (Cons p nested)
  obtain nk nv where p: "p = (nk, nv)" by (cases p)
  show ?case by (cases nv) (simp_all add: p Cons.IH)
qed

lemma map_of_truncate_variants:
  "map_of (map (\<lambda>(vk, vv). (vk, truncate_variant vv)) variants) k
     = map_option truncate_variant (map_of variants k)"
  by (induction variants) auto

lemma render_items_truncate:
  "render_items ui pre (map (\<lambda>(k, v). (k, truncate_category v)) items) sel
     = render_items ui pre items sel"
proof (induction items arbitrary: sel)
  case Nil
  show ?case by simp
next
  case (Cons p items)
  obtain key val where p: "p = (key, val)" by (cases p)
  show ?case
  proof (cases val)
    case (JDict variants)
    let ?vs = "map (\<lambda>(vk, vv). (vk, truncate_variant vv)) variants"
    have f: "map fst ?vs = map fst variants" by (induction variants) auto
    let ?o = "selectbox ui (pre @ ''selectbox-'' @ key) (map fst variants)"
    show ?thesis
    proof (cases "map_of variants ?o")
      case None
      then show ?thesis
        by (simp add: p JDict f map_of_truncate_variants Let_def del: map_map)
    next
      case (Some vv)
      then show ?thesis
        by (cases vv)
           (simp_all add: p JDict f map_of_truncate_variants Let_def render_nested_filter Cons.IH
              del: map_map)
    qed
  qed (simp_all add: p Cons.IH)
qed

lemma render_ui_truncate: "render_ui ui (truncate_taxonomy d) pre = render_ui ui d pre"
  by (cases d) (simp_all add: render_ui_def render_items_truncate)

lemma depth_items_le:
  "\<forall>p \<in> set items. depth (snd p) \<le> n \<Longrightarrow> depth_items items \<le> n"
  by (induction items) auto

lemma depth_truncate_variant: "depth (truncate_variant v) \<le> 1"
proof (cases v)
  case (JDict nested)
  have "depth_items (filter (\<lambda>(nk, nv). is_option_list nv) nested) \<le> 0"
  proof (rule depth_items_le, rule ballI)
    fix p assume "p \<in> set (filter (\<lambda>(nk, nv). is_option_list nv) nested)"
    then have "is_option_list (snd p)" by (auto simp: case_prod_unfold)
    then show "depth (snd p) \<le> 0" by (cases "snd p") simp_all
  qed
  then show ?thesis by (simp add: JDict)
qed simp_all

lemma depth_truncate_category: "depth (truncate_category v) \<le> 2"
proof (cases v)
  case (JDict variants)
  have "depth_items (map (\<lambda>(vk, vv). (vk, truncate_variant vv)) variants) \<le> 1"
    using depth_truncate_variant by (intro depth_items_le) auto
  then show ?thesis by (simp add: JDict)
qed simp_all

lemma depth_truncate: "depth (truncate_taxonomy d) \<le> 3"
proof (cases d)
  case (JDict items)
  have "depth_items (map (\<lambda>(k, v). (k, truncate_category v)) items) \<le> 2"
    using depth_truncate_category by (intro depth_items_le) auto
  then show ?thesis by (simp add: JDict)
qed simp_all

lemma collect_keys_wrap:
  "collect_keys (JDict [(k, JDict [(v, t)])]) acc
     = (fst (collect_keys t []), acc @ [k] @ snd (collect_keys t []))"
proof -
  obtain e ks where c0: "collect_keys t [] = (e, ks)" by (cases "collect_keys t []")
  have ca: "collect_keys t a = (e, a @ ks)" for a
    by (subst collect_keys_append) (simp add: c0)
  show ?thesis by (cases e) (simp_all add: ca c0)
qed

lemma collect_subs_outcome:
  assumes "\<And>k v acc. (k, v) \<in> set subs \<Longrightarrow>
     fst (collect_keys v acc) = (if variants_are_mappings v then None else Some AttributeError)"
  shows "fst (collect_subs subs acc) = (if variants_ok subs then None else Some AttributeError)"
  using assms
proof (induction subs arbitrary: acc)
  case Nil
  show ?case by simp
next
  case (Cons p rest)
  obtain k v where p: "p = (k, v)" by (cases p)
  obtain e a where c: "collect_keys v acc = (e, a)" by (cases "collect_keys v acc")
  have e: "e = (if variants_are_mappings v then None else Some AttributeError)"
    using Cons.prems [of k v acc] p c by simp
  have ih: "fst (collect_subs rest a) = (if variants_ok rest then None else Some AttributeError)"
  proof (rule Cons.IH)
    fix k' v' acc' assume "(k', v') \<in> set rest"
    then show "fst (collect_keys v' acc')
        = (if variants_are_mappings v' then None else Some AttributeError)"
      by (intro Cons.prems [of k']) simp
  qed
  show ?case
  proof (cases "variants_are_mappings v")
    case True
    with e c ih show ?thesis by (simp add: p)
  next
    case False
    with e c show ?thesis by (simp add: p)
  qed
qed

lemma collect_items_outcome:
  assumes "\<And>k subs acc. (k, JDict subs) \<in> set items \<Longrightarrow>
     fst (collect_subs subs acc) = (if variants_ok subs then None else Some AttributeError)"
  shows "fst (collect_items items acc) = (if categories_ok items then None else Some AttributeError)"
  using assms
proof (induction items arbitrary: acc)
  case Nil
  show ?case by simp
next
  case (Cons p rest)
  obtain key val where p: "p = (key, val)" by (cases p)
  have ih: "fst (collect_items rest a) = (if categories_ok rest then None else Some AttributeError)"
    for a
  proof (rule Cons.IH)
    fix k subs acc' assume "(k, JDict subs) \<in> set rest"
    then show "fst (collect_subs subs acc') = (if variants_ok subs then None else Some AttributeError)"
      by (intro Cons.prems [of k]) simp
  qed
  show ?case
  proof (cases val)
    case (JDict subs)
    obtain e a where c: "collect_subs subs (acc @ [key]) = (e, a)"
      by (cases "collect_subs subs (acc @ [key])")
    have e: "e = (if variants_ok subs then None else Some AttributeError)"
      using Cons.prems [of key subs "acc @ [key]"] p JDict c by simp
    show ?thesis
    proof (cases "variants_ok subs")
      case True
      with e c ih [of a] show ?thesis by (simp add: p JDict)
    next
      case False
      with e c show ?thesis by (simp add: p JDict)
    qed
  next
    case (JList vs)
    with ih [of "acc @ [key]"] show ?thesis by (simp add: p)
  next
    case (JStr t)
    with ih [of "acc @ [key]"] show ?thesis by (simp add: p)
  qed
qed

lemma collect_outcome_both:
  "(\<forall>acc. fst (collect_keys d acc) = (if variants_are_mappings d then None else Some AttributeError))
   \<and> (\<forall>subs acc. d = JDict subs \<longrightarrow>
        fst (collect_subs subs acc) = (if variants_ok subs then None else Some AttributeError))"
proof (induction d)
  case (JStr s)
  show ?case by simp
next
  case (JList vs)
  show ?case by simp
next
  case (JDict items)
  have ih: "(\<forall>acc. fst (collect_keys v acc)
        = (if variants_are_mappings v then None else Some AttributeError))
      \<and> (\<forall>subs acc. v = JDict subs \<longrightarrow>
        fst (collect_subs subs acc) = (if variants_ok subs then None else Some AttributeError))"
    if "(k, v) \<in> set items" for k v
    using JDict.IH [OF that] by simp
  have 1: "fst (collect_items items acc) = (if categories_ok items then None else Some AttributeError)"
    for acc
    by (rule collect_items_outcome) (use ih in blast)
  have 2: "fst (collect_subs items acc) = (if variants_ok items then None else Some AttributeError)"
    for acc
    by (rule collect_subs_outcome) (use ih in blast)
  from 1 2 show ?case by simp
qed

lemma collect_keys_outcome:
  "fst (collect_keys d acc) = (if variants_are_mappings d then None else Some AttributeError)"
  using collect_outcome_both [of d] by blast

lemma chain_parity: "variants_are_mappings (chain ks leaf) = odd (length ks)"
  by (induction ks rule: induct_list012) simp_all

lemma depth_chain: "depth (chain ks leaf) = length ks"
  by (induction ks) simp_all

text \<open>
  Claim C8, as the code has it. The reader has no depth check. Whatever the depth of
  the taxonomy, \<^verbatim>\<open>collect_keys\<close> raises \<^verbatim>\<open>AttributeError\<close> exactly when the taxonomy, or
  the value of a variant at some level, is not a mapping, and then both pages stop with
  this exception at their first step, before any combination is computed; every other
  taxonomy is accepted. So a list of options under \<open>n\<close> nested mappings is rejected for
  even \<open>n\<close> (one level more than supported is \<open>n = 4\<close>) and accepted for odd \<open>n\<close> (two
  levels more is \<open>n = 5\<close>). \<^verbatim>\<open>render_ui\<close> returns for every taxonomy what it returns for
  the taxonomy cut down to the supported levels: a sub-category whose value is not a
  list is passed over. The keys of the deeper levels are collected: a taxonomy put under
  one more category and variant, two levels deeper, gives the outcome of the taxonomy
  itself, and its keys are collected after the new category.
\<close>

theorem no_depth_check:
  "fst (collect_keys d acc) = (if variants_are_mappings d then None else Some AttributeError)
   \<and> (\<not> variants_are_mappings d \<longrightarrow>
        automatic_news_generation_ui ui prompt_template d default_list edited = Inl AttributeError
        \<and> news_from_trends_ui ui default_list (run\<lparr>components := d\<rparr>) = Inl AttributeError)
   \<and> variants_are_mappings (chain ks leaf) = odd (length ks)
   \<and> depth (chain ks leaf) = length ks
   \<and> render_ui ui d pre = render_ui ui (truncate_taxonomy d) pre
   \<and> depth (truncate_taxonomy d) \<le> 3
   \<and> collect_keys (JDict [(k, JDict [(v, t)])]) acc
        = (fst (collect_keys t []), acc @ [k] @ snd (collect_keys t []))
   \<and> depth (JDict [(k, JDict [(v, t)])]) = depth t + 2"
proof (intro conjI impI)
  show "fst (collect_keys d acc) = (if variants_are_mappings d then None else Some AttributeError)"
    by (rule collect_keys_outcome)
next
  assume n: "\<not> variants_are_mappings d"
  obtain a where c: "collect_keys d default_list = (Some AttributeError, a)"
    using collect_keys_outcome [of d default_list] n
    by (cases "collect_keys d default_list") simp
  show "automatic_news_generation_ui ui prompt_template d default_list edited = Inl AttributeError"
    by (simp add: automatic_news_generation_ui_def collect_keys_default_def c)
  show "news_from_trends_ui ui default_list (run\<lparr>components := d\<rparr>) = Inl AttributeError"
    by (simp add: news_from_trends_ui_def news_possible_keys_def collect_keys_default_def c)
next
  show "variants_are_mappings (chain ks leaf) = odd (length ks)"
    by (rule chain_parity)
  show "depth (chain ks leaf) = length ks"
    by (rule depth_chain)
  show "render_ui ui d pre = render_ui ui (truncate_taxonomy d) pre"
    by (rule render_ui_truncate [symmetric])
  show "depth (truncate_taxonomy d) \<le> 3"
    by (rule depth_truncate)
  show "collect_keys (JDict [(k, JDict [(v, t)])]) acc
        = (fst (collect_keys t []), acc @ [k] @ snd (collect_keys t []))"
    by (rule collect_keys_wrap)
  show "depth (JDict [(k, JDict [(v, t)])]) = depth t + 2"
    by simp
qed

theorem no_depth_check_witness:
  "depth one_level_deeper = 4
   \<and> collect_keys one_level_deeper [] = (Some AttributeError, [''Style'', ''Tone''])
   \<and> automatic_news_generation_ui default_operator ''About [[Tone]]'' one_level_deeper []
        ''About [[Tone]]'' = Inl AttributeError
   \<and> news_from_trends_ui default_operator [] (example_run\<lparr>components := one_level_deeper\<rparr>)
        = Inl AttributeError"
proof -
  have n: "\<not> variants_are_mappings one_level_deeper"
    by (simp add: one_level_deeper_def)
  note t = no_depth_check [of one_level_deeper "[]" default_operator "''About [[Tone]]''" "[]"
      "''About [[Tone]]''" example_run]
  from t n have "automatic_news_generation_ui default_operator ''About [[Tone]]'' one_level_deeper []
        ''About [[Tone]]'' = Inl AttributeError
     \<and> news_from_trends_ui default_operator [] (example_run\<lparr>components := one_level_deeper\<rparr>)
        = Inl AttributeError"
    by blast
  moreover have "depth one_level_deeper = 4"
    and "collect_keys one_level_deeper [] = (Some AttributeError, [''Style'', ''Tone''])"
    by (simp_all add: one_level_deeper_def)
  ultimately show ?thesis by blast
qed

theorem deep_taxonomy_counterexample:
  "depth deep_taxonomy = 5
   \<and> collect_keys deep_taxonomy [] = (None, [''Style'', ''Tone'', ''Register'', ''Politeness''])
   \<and> render_ui default_operator deep_taxonomy []
        = Inr [(''Style'', Single ''News''), (''Tone'', Many [''Dry'', ''Warm''])]"
  by (simp add: deep_taxonomy_def default_operator_def render_ui_def)

section \<open>Combination Expander: properties\<close>

lemma itertools_product_eq: "itertools_product xss = product_lists xss"
  by (induction xss) simp_all

lemma length_itertools_product:
  "length (itertools_product xss) = prod_list (map length xss)"
  by (induction xss) (simp_all add: length_concat comp_def sum_list_triv)

lemma expand_zip:
  assumes "sel \<noteq> []" "distinct (keys sel)"
  shows "expand sel = Inr (map (zip (keys sel)) (product_lists (map (\<lambda>p. iterate (snd p)) sel)))"
proof -
  let ?ks = "map fst sel" and ?vals = "map (\<lambda>p. iterate (snd p)) sel"
  have "dict_of (zip ?ks v) = zip ?ks v" if "v \<in> set (product_lists ?vals)" for v
  proof -
    from that have "length v = length ?ks"
      using in_set_product_lists_length [of v ?vals] by simp
    then have "map fst (zip ?ks v) = ?ks" by (simp del: map_map)
    with assms(2) show ?thesis by (intro dict_of_distinct) (simp add: keys_def)
  qed
  then have "map (\<lambda>v. dict_of (zip ?ks v)) (product_lists ?vals) = map (zip ?ks) (product_lists ?vals)"
    by (intro map_cong) simp_all
  with assms(1) show ?thesis
    by (simp add: expand_def unzip_items_def itertools_product_eq keys_def comp_def)
qed

lemma zip_keys_inj:
  "length v = length ks \<Longrightarrow> length w = length ks \<Longrightarrow> zip ks v = zip ks w \<Longrightarrow> v = w"
  by (metis map_snd_zip)

text \<open>
  Claim C1, as the code has it. For every selection set with at least one key, the
  expander returns (without error) the Cartesian product of the value lists: the number
  of combinations is the product of the lengths of the lists; a mapping is among the
  combinations exactly when its keys are the keys of the selection set in the same
  order and each of its values is an element of the list of its key; no combination
  occurs twice, provided that no value list holds an element twice; and the result is
  the empty list when a value list is empty. (On a normalized selection set every value
  is \<open>Many vs\<close>, and \<open>iterate (Many vs) = vs\<close>.)
\<close>

theorem expand_cartesian:
  assumes "sel \<noteq> []" and "distinct (keys sel)"
  shows "\<exists>combinations. expand sel = Inr combinations
    \<and> length combinations = prod_list (map (\<lambda>(k, s). length (iterate s)) sel)
    \<and> (\<forall>c. c \<in> set combinations \<longleftrightarrow>
          keys c = keys sel \<and> list_all2 (\<lambda>v (k, s). v \<in> set (iterate s)) (map snd c) sel)
    \<and> ((\<forall>(k, s) \<in> set sel. distinct (iterate s)) \<longrightarrow> distinct combinations)
    \<and> ((\<exists>(k, s) \<in> set sel. iterate s = []) \<longrightarrow> combinations = [])"
proof -
  let ?ks = "keys sel" and ?vals = "map (\<lambda>p. iterate (snd p)) sel"
  let ?cs = "map (zip ?ks) (product_lists ?vals)"
  have e: "expand sel = Inr ?cs" by (rule expand_zip [OF assms])
  have len: "length ?cs = prod_list (map (\<lambda>(k, s). length (iterate s)) sel)"
    using length_itertools_product [of ?vals]
    by (simp add: itertools_product_eq comp_def case_prod_unfold)
  have mem: "c \<in> set ?cs \<longleftrightarrow>
          keys c = keys sel \<and> list_all2 (\<lambda>v (k, s). v \<in> set (iterate s)) (map snd c) sel" for c
  proof
    assume "c \<in> set ?cs"
    then obtain v where v: "v \<in> set (product_lists ?vals)" and c: "c = zip ?ks v" by auto
    from v have a: "list_all2 (\<lambda>x ys. x \<in> set ys) v ?vals" by (simp add: product_lists_set)
    then have l: "length v = length ?ks" by (auto dest: list_all2_lengthD simp: keys_def)
    from a have "list_all2 (\<lambda>v (k, s). v \<in> set (iterate s)) v sel"
      by (simp add: list_all2_map2 case_prod_unfold)
    with l show "keys c = keys sel \<and> list_all2 (\<lambda>v (k, s). v \<in> set (iterate s)) (map snd c) sel"
      by (simp add: c keys_def)
  next
    assume h: "keys c = keys sel \<and> list_all2 (\<lambda>v (k, s). v \<in> set (iterate s)) (map snd c) sel"
    then have "list_all2 (\<lambda>x ys. x \<in> set ys) (map snd c) ?vals"
      by (simp add: list_all2_map2 case_prod_unfold)
    then have "map snd c \<in> set (product_lists ?vals)" by (simp add: product_lists_set)
    moreover have "c = zip ?ks (map snd c)"
      using h by (metis keys_def zip_map_fst_snd)
    ultimately show "c \<in> set ?cs" by (metis image_eqI set_map)
  qed
  have dist: "distinct ?cs" if "\<forall>(k, s) \<in> set sel. distinct (iterate s)"
  proof -
    from that have "distinct (product_lists ?vals)"
      by (intro distinct_product_lists) auto
    moreover have "inj_on (zip ?ks) (set (product_lists ?vals))"
    proof (rule inj_onI)
      fix v w assume "v \<in> set (product_lists ?vals)" "w \<in> set (product_lists ?vals)"
        and z: "zip ?ks v = zip ?ks w"
      then have "length v = length ?ks" "length w = length ?ks"
        using in_set_product_lists_length [of _ ?vals] by (simp_all add: keys_def)
      then show "v = w" using z by (rule zip_keys_inj)
    qed
    ultimately show ?thesis by (simp add: distinct_map)
  qed
  have empty: "?cs = []" if "\<exists>(k, s) \<in> set sel. iterate s = []"
  proof -
    from that have "prod_list (map (\<lambda>(k, s). length (iterate s)) sel) = 0"
      by (force simp: prod_list_zero_iff)
    with len show ?thesis by simp
  qed
  from e len mem dist empty show ?thesis by blast
qed

theorem expand_cartesian_witness:
  "expand [(''A'', Many [''a1'', ''a2'']), (''B'', Many [''b1''])]
     = Inr [[(''A'', ''a1''), (''B'', ''b1'')], [(''A'', ''a2''), (''B'', ''b1'')]]
   \<and> length [[(''A'', ''a1''), (''B'', ''b1'')], [(''A'', ''a2''), (''B'', ''b1'')]] = 2 * 1
   \<and> distinct [[(''A'', ''a1''), (''B'', ''b1'')], [(''A'', ''a2''), (''B'', ''b1'')]]
   \<and> expand [(''A'', Many []), (''B'', Many [''b1''])] = Inr []"
proof -
  let ?sel = "[(''A'', Many [''a1'', ''a2'']), (''B'', Many [''b1''])]"
  let ?cs = "[[(''A'', ''a1''), (''B'', ''b1'')], [(''A'', ''a2''), (''B'', ''b1'')]]"
  have n: "?sel \<noteq> []" and d: "distinct (keys ?sel)" by (simp_all add: keys_def)
  have e: "expand ?sel = Inr ?cs"
    by (simp add: expand_def unzip_items_def dict_of_def)
  have v: "\<forall>(k, s) \<in> set ?sel. distinct (iterate s)" by simp
  from expand_cartesian [OF n d] e v
  have 1: "length ?cs = prod_list (map (\<lambda>(k, s). length (iterate s)) ?sel)" and 2: "distinct ?cs"
    by auto
  let ?sel0 = "[(''A'', Many []), (''B'', Many [''b1''])]"
  have n0: "?sel0 \<noteq> []" and d0: "distinct (keys ?sel0)" by (simp_all add: keys_def)
  have v0: "\<exists>(k, s) \<in> set ?sel0. iterate s = []" by simp
  from expand_cartesian [OF n0 d0] v0 have 3: "expand ?sel0 = Inr []" by auto
  from e 1 2 3 show ?thesis by simp
qed

theorem expand_counterexample:
  "expand [] = Inl ValueError
   \<and> expand [(''A'', Many [''x'', ''x''])] = Inr [[(''A'', ''x'')], [(''A'', ''x'')]]
   \<and> \<not> distinct [[(''A'', ''x'')], [(''A'', ''x'')]]"
  by (simp add: expand_def unzip_items_def dict_of_def)

section \<open>Placeholder Scanner: properties\<close>

lemma lazy_close_sound:
  "lazy_close s = Some (name, rest) \<Longrightarrow> s = name @ '']]'' @ rest \<and> LF \<notin> set name"
proof (induction s arbitrary: name)
  case Nil
  then show ?case by simp
next
  case (Cons c cs)
  show ?case
  proof (cases "prefix '']]'' (c # cs)")
    case True
    then obtain r where "c # cs = '']]'' @ r" by (auto simp: prefix_def)
    with Cons.prems True show ?thesis by auto
  next
    case False
    with Cons.prems obtain n where "c \<noteq> LF" "lazy_close cs = Some (n, rest)" "name = c # n"
      by (auto split: if_splits option.splits)
    with Cons.IH [of n] show ?thesis by simp
  qed
qed

lemma lazy_close_shortest:
  "lazy_close s = Some (name, rest) \<Longrightarrow> \<not> sublist '']]'' (name @ '']'')"
proof (induction s arbitrary: name)
  case Nil
  then show ?case by simp
next
  case (Cons c cs)
  show ?case
  proof (cases "prefix '']]'' (c # cs)")
    case True
    with Cons.prems have "name = []" by (auto split: if_splits)
    then show ?thesis by (simp add: sublist_Cons_right)
  next
    case False
    with Cons.prems obtain n where n: "c \<noteq> LF" "lazy_close cs = Some (n, rest)" "name = c # n"
      by (auto split: if_splits option.splits)
    from lazy_close_sound [OF n(2)] have cs: "cs = n @ '']]'' @ rest" by simp
    have "\<not> prefix '']]'' (c # n @ '']'')"
      using False cs by (cases n) auto
    with Cons.IH [OF n(2)] show ?thesis by (simp add: n sublist_Cons_right)
  qed
qed

lemma lazy_close_complete:
  "LF \<notin> set name \<Longrightarrow> \<not> sublist '']]'' (name @ '']'') \<Longrightarrow>
   lazy_close (name @ '']]'' @ rest) = Some (name, rest)"
proof (induction name)
  case Nil
  show ?case by simp
next
  case (Cons c n)
  from Cons.prems have np: "\<not> prefix '']]'' (c # n @ '']'')" and ns: "\<not> sublist '']]'' (n @ '']'')"
    by (simp_all add: sublist_Cons_right)
  from np have "\<not> prefix '']]'' (c # n @ '']]'' @ rest)" by (cases n) auto
  with Cons.IH [OF _ ns] Cons.prems(1) show ?case by auto
qed

lemma lazy_close_exists:
  "LF \<notin> set name \<Longrightarrow> lazy_close (name @ '']]'' @ rest) \<noteq> None"
  by (induction name) auto

lemma findall_token:
  assumes "LF \<notin> set name" "\<not> sublist '']]'' (name @ '']'')"
  shows "findall (''[['' @ name @ '']]'' @ rest) = name # findall rest"
  using lazy_close_complete [OF assms, of rest] by simp

lemma findall_skip:
  assumes "\<not> (\<exists>name rest. c # cs = ''[['' @ name @ '']]'' @ rest \<and> LF \<notin> set name)"
  shows "findall (c # cs) = findall cs"
proof (cases "prefix ''[['' (c # cs)")
  case True
  then obtain s where s: "c # cs = ''[['' @ s" by (auto simp: prefix_def)
  have "lazy_close s = None"
  proof (rule ccontr)
    assume "lazy_close s \<noteq> None"
    then obtain n r where "lazy_close s = Some (n, r)" by auto
    from lazy_close_sound [OF this] s assms show False by auto
  qed
  with s True show ?thesis by auto
next
  case False
  then show ?thesis by auto
qed

lemma subseq_uncovered: "subseq (uncovered_placeholders known ps) ps"
  by (simp add: uncovered_placeholders_def)

lemma count_uncovered:
  "count_list (uncovered_placeholders known ps) n = (if n \<in> set known then 0 else count_list ps n)"
  by (induction ps) (auto simp: uncovered_placeholders_def)

text \<open>
  Claim C6, as the code has it. The scanner is determined by three facts. The empty
  template has no placeholder. A template that starts with \<^verbatim>\<open>[[\<close>, a name without line
  feed that is the shortest one closed by \<^verbatim>\<open>]]\<close> (no \<^verbatim>\<open>]]\<close> starts inside the name or
  at its last character), and \<^verbatim>\<open>]]\<close>, yields that name, followed by what the scanner
  finds after the closing brackets: names come in the order of the template, repeated
  ones repeatedly. A template that does not start with \<^verbatim>\<open>[[\<close>, a run without line feed
  and \<^verbatim>\<open>]]\<close> is scanned from its second character on. The unknown placeholders are
  the scanned names that are not in the list of known keys, in the same order and as
  often as they were scanned.
\<close>

theorem scanner_characterised:
  "findall [] = []
   \<and> (\<forall>name rest. LF \<notin> set name \<and> \<not> sublist '']]'' (name @ '']'') \<longrightarrow>
        findall (''[['' @ name @ '']]'' @ rest) = name # findall rest)
   \<and> (\<forall>c cs. \<not> (\<exists>name rest. c # cs = ''[['' @ name @ '']]'' @ rest \<and> LF \<notin> set name) \<longrightarrow>
        findall (c # cs) = findall cs)
   \<and> subseq (uncovered_placeholders known (findall t)) (findall t)
   \<and> (\<forall>n. count_list (uncovered_placeholders known (findall t)) n
          = (if n \<in> set known then 0 else count_list (findall t) n))"
  using findall_token findall_skip subseq_uncovered count_uncovered
  by (intro conjI allI impI) (simp_all del: findall.simps(2))

theorem scanner_characterised_witness:
  "findall ''[[Style]] and [[Topic]]'' = ''Style'' # findall '' and [[Topic]]''
   \<and> findall '' and [[Topic]]'' = findall ''and [[Topic]]''
   \<and> findall ''and [[Topic]]'' = [''Topic'']
   \<and> uncovered_placeholders [''Style'', ''Tone''] (findall ''[[Style]] and [[Topic]]'') = [''Topic'']"
proof -
  note t = scanner_characterised [of "[]" "[]"]
  have h: "LF \<notin> set ''Style'' \<and> \<not> sublist '']]'' (''Style'' @ '']'')"
    by (simp add: LF_def sublist_Cons_right)
  from t [THEN conjunct2, THEN conjunct1, rule_format, OF h, of "'' and [[Topic]]''"]
  have 1: "findall ''[[Style]] and [[Topic]]'' = ''Style'' # findall '' and [[Topic]]''"
    by simp
  have g: "\<not> (\<exists>name rest. CHR '' '' # ''and [[Topic]]'' = ''[['' @ name @ '']]'' @ rest
             \<and> LF \<notin> set name)"
    by simp
  from t [THEN conjunct2, THEN conjunct2, THEN conjunct1, rule_format, OF g]
  have 2: "findall '' and [[Topic]]'' = findall ''and [[Topic]]''"
    by simp
  have 3: "findall ''and [[Topic]]'' = [''Topic'']" by (simp add: LF_def)
  from 1 2 3 show ?thesis by (simp add: uncovered_placeholders_def)
qed

theorem scanner_line_feed_counterexample:
  "findall (''[[Top'' @ [LF] @ ''ic]]'') = []"
  by (simp add: LF_def)

section \<open>Template Substitution: properties\<close>

lemma fill_Nil: "fill t [] = t"
  by (simp add: fill_def)

lemma fill_Cons: "fill t ((k, v) # comb) = fill (str_replace t (token k) v) comb"
  by (simp add: fill_def)

lemma token_Cons: "token k = CHR ''['' # CHR ''['' # k @ '']]''"
  by (simp add: token_def)

lemma length_token: "length (token k) = length k + 4"
  by (simp add: token_def)

text \<open>A text with no opening bracket is passed over by the replacement of a token.\<close>

lemma str_replace_skip:
  "CHR ''['' \<notin> set u \<Longrightarrow> str_replace (u @ rest) (token k) v = u @ str_replace rest (token k) v"
  by (induction u) (auto simp: token_Cons)

lemma token_not_Nil: "token k \<noteq> []"
  by (simp add: token_def)

lemma str_replace_miss:
  "old \<noteq> [] \<Longrightarrow> \<not> prefix old (c # cs) \<Longrightarrow> str_replace (c # cs) old new = c # str_replace cs old new"
  by (cases old) auto

lemma str_replace_match:
  "old \<noteq> [] \<Longrightarrow> str_replace (old @ rest) old new = new @ str_replace rest old new"
  by (cases old) simp_all

lemma str_replace_hit: "str_replace (token k @ rest) (token k) v = v @ str_replace rest (token k) v"
  by (rule str_replace_match [OF token_not_Nil])

lemma close_prefix_eq:
  "bracket_free k \<Longrightarrow> bracket_free z \<Longrightarrow> prefix (k @ '']]'') (z @ '']]'' @ post) \<Longrightarrow> k = z"
proof (induction k arbitrary: z)
  case Nil
  then show ?case by (cases z) (auto simp: bracket_free_def)
next
  case (Cons c k)
  from Cons.prems have bf: "bracket_free k" and c: "c \<noteq> CHR '']''"
    by (auto simp: bracket_free_def)
  show ?case
  proof (cases z)
    case Nil
    with Cons.prems(3) c show ?thesis by simp
  next
    case (Cons d z')
    with Cons.prems have "c = d" "bracket_free z'" "prefix (k @ '']]'') (z' @ '']]'' @ post)"
      by (simp_all add: bracket_free_def)
    with Cons.IH [OF bf, of z'] Cons show ?thesis by simp
  qed
qed

lemma close_prefix_before:
  "bracket_free k \<Longrightarrow> prefix (k @ '']]'') (p @ CHR ''['' # r) \<Longrightarrow> prefix (k @ '']]'') p"
proof (induction k arbitrary: p)
  case Nil
  show ?case
  proof (cases p)
    case Nil
    with Nil.prems show ?thesis by simp
  next
    case (Cons a p')
    with Nil.prems show ?thesis by (cases p') auto
  qed
next
  case (Cons c k)
  from Cons.prems(1) have bf: "bracket_free k" and c: "c \<noteq> CHR ''[''"
    by (auto simp: bracket_free_def)
  show ?case
  proof (cases p)
    case Nil
    with Cons.prems(2) c show ?thesis by simp
  next
    case (Cons a p')
    with Cons.prems(2) have "a = c" and "prefix (k @ '']]'') (p' @ CHR ''['' # r)" by simp_all
    with Cons.IH [OF bf, of p'] Cons show ?thesis by simp
  qed
qed

lemma token_prefix_before:
  assumes "bracket_free k" "bracket_free z" "k \<noteq> z"
    and "prefix (token k) (p @ token z @ post)"
  shows "prefix (token k) p"
proof (cases p)
  case Nil
  with assms(4) have "prefix (k @ '']]'') (z @ '']]'' @ post)" by (simp add: token_Cons)
  with assms(1-3) close_prefix_eq show ?thesis by blast
next
  case (Cons a p')
  show ?thesis
  proof (cases p')
    case Nil
    with Cons assms(4) have "prefix (k @ '']]'') ([] @ CHR ''['' # z @ '']]'' @ post)"
      by (auto simp: token_Cons)
    from close_prefix_before [OF assms(1) this] show ?thesis by simp
  next
    case (Cons b p'')
    with \<open>p = a # p'\<close> assms(4)
    have ab: "a = CHR ''[''" "b = CHR ''[''"
      and "prefix (k @ '']]'') (p'' @ CHR ''['' # (CHR ''['' # z @ '']]'' @ post))"
      by (auto simp: token_Cons)
    from close_prefix_before [OF assms(1) this(3)] ab Cons \<open>p = a # p'\<close> show ?thesis
      by (simp add: token_Cons)
  qed
qed

lemma str_replace_other_token:
  assumes "bracket_free k" "bracket_free z" "k \<noteq> z"
  shows "str_replace (token z @ post) (token k) v = token z @ str_replace post (token k) v"
proof -
  have 1: "\<not> prefix (token k) (token z @ post)"
    using token_prefix_before [OF assms, of "[]" post] by (auto simp: token_Cons)
  have 2: "\<not> prefix (token k) (CHR ''['' # z @ '']]'' @ post)"
    using assms(2) by (cases z) (auto simp: token_Cons bracket_free_def)
  have 3: "str_replace ((z @ '']]'') @ post) (token k) v = (z @ '']]'') @ str_replace post (token k) v"
    using assms(2) by (intro str_replace_skip) (simp add: bracket_free_def)
  have "str_replace (token z @ post) (token k) v
      = CHR ''['' # str_replace (CHR ''['' # z @ '']]'' @ post) (token k) v"
    using 1 by (simp add: token_Cons)
  also have "\<dots> = CHR ''['' # CHR ''['' # str_replace (z @ '']]'' @ post) (token k) v"
    using 2 by (simp add: token_Cons)
  finally show ?thesis using 3 by (simp add: token_Cons)
qed

lemma str_replace_around_token:
  assumes "bracket_free k" "bracket_free z" "k \<noteq> z"
  shows "str_replace (pre @ token z @ post) (token k) v
           = str_replace pre (token k) v @ token z @ str_replace post (token k) v"
proof (induction "length pre" arbitrary: pre rule: less_induct)
  case less
  show ?case
  proof (cases pre)
    case Nil
    have "str_replace [] (token k) v = []" by (simp add: token_Cons)
    then show ?thesis using str_replace_other_token [OF assms] Nil by simp
  next
    case (Cons c p)
    show ?thesis
    proof (cases "prefix (token k) (pre @ token z @ post)")
      case True
      from token_prefix_before [OF assms True] have pp: "prefix (token k) pre" .
      then obtain q where q: "pre = token k @ q" by (auto simp: prefix_def)
      then have "length q < length pre" by (simp add: token_Cons)
      from less [OF this] show ?thesis
        by (simp add: q str_replace_hit)
    next
      case False
      then have np: "\<not> prefix (token k) pre" by (auto simp: prefix_def)
      from less [of p] Cons have ih: "str_replace (p @ token z @ post) (token k) v
           = str_replace p (token k) v @ token z @ str_replace post (token k) v" by simp
      have "str_replace (pre @ token z @ post) (token k) v
          = c # str_replace (p @ token z @ post) (token k) v"
        using False Cons str_replace_miss [OF token_not_Nil, of k c "p @ token z @ post" v] by simp
      moreover have "str_replace pre (token k) v = c # str_replace p (token k) v"
        using np Cons str_replace_miss [OF token_not_Nil, of k c p v] by simp
      ultimately show ?thesis by (simp add: ih)
    qed
  qed
qed


lemma render_Cons: "render (seg # segs) = render_segment seg @ render segs"
  by (simp add: render_def)

text \<open>
  No token starts inside a text without \<^verbatim>\<open>[[\<close> that does not end in \<^verbatim>\<open>[\<close>, whatever
  follows the text.
\<close>

lemma plain_text_Cons:
  assumes "plain_text (c # u)"
  shows "plain_text u" and "\<not> prefix ''[['' (c # u @ rest)"
proof -
  from assms have np: "\<not> prefix ''[['' (c # u)" and ns: "\<not> sublist ''[['' u"
    and l: "last (c # u) \<noteq> CHR ''[''"
    by (simp_all add: plain_text_def sublist_Cons_right)
  show "plain_text u"
  proof (cases u)
    case Nil
    then show ?thesis by (simp add: plain_text_def)
  next
    case (Cons d u')
    with l ns show ?thesis by (simp add: plain_text_def)
  qed
  show "\<not> prefix ''[['' (c # u @ rest)"
  proof (cases u)
    case Nil
    with l show ?thesis by auto
  next
    case (Cons d u')
    with np show ?thesis by auto
  qed
qed

lemma str_replace_plain_text:
  "plain_text u \<Longrightarrow> str_replace (u @ rest) (token k) v = u @ str_replace rest (token k) v"
proof (induction u)
  case Nil
  show ?case by simp
next
  case (Cons c u)
  have pu: "plain_text u" and np: "\<not> prefix ''[['' (c # u @ rest)"
    by (rule plain_text_Cons(1) [OF Cons.prems], rule plain_text_Cons(2) [OF Cons.prems])
  have "prefix ''[['' (token k)" by (simp add: token_def)
  with np have "\<not> prefix (token k) (c # u @ rest)"
    using prefix_order.trans by blast
  then have "str_replace (c # u @ rest) (token k) v = c # str_replace (u @ rest) (token k) v"
    by (rule str_replace_miss [OF token_not_Nil])
  with Cons.IH [OF pu] show ?case by simp
qed

lemma str_replace_render:
  assumes "bracket_free k" "\<forall>seg \<in> set segs. plain seg"
  shows "str_replace (render segs) (token k) v
           = render (map (\<lambda>seg. if seg = Placeholder k then Text v else seg) segs)"
  using assms(2)
proof (induction segs)
  case Nil
  show ?case by (simp add: render_def token_Cons)
next
  case (Cons seg segs)
  then have ih: "str_replace (render segs) (token k) v
           = render (map (\<lambda>seg. if seg = Placeholder k then Text v else seg) segs)" by simp
  show ?case
  proof (cases seg)
    case (Text s)
    with Cons.prems have "plain_text s" by simp
    then show ?thesis by (simp add: Text render_Cons str_replace_plain_text ih)
  next
    case (Placeholder n)
    with Cons.prems have n: "bracket_free n" by simp
    show ?thesis
    proof (cases "n = k")
      case True
      then show ?thesis by (simp add: Placeholder render_Cons str_replace_hit ih)
    next
      case False
      then have "k \<noteq> n" by simp
      from str_replace_other_token [OF assms(1) n this] False show ?thesis
        by (simp add: Placeholder render_Cons ih)
    qed
  qed
qed

lemma substitute_Nil: "substitute [] seg = seg"
  by (cases seg) simp_all

lemma fill_render:
  assumes "\<forall>(k, v) \<in> set comb. bracket_free k \<and> plain_text v" "\<forall>seg \<in> set segs. plain seg"
  shows "fill (render segs) comb = render (map (substitute comb) segs)"
  using assms
proof (induction comb arbitrary: segs)
  case Nil
  show ?case by (simp add: fill_Nil substitute_Nil)
next
  case (Cons p comb)
  obtain k v where p: "p = (k, v)" by (cases p)
  let ?r = "\<lambda>seg. if seg = Placeholder k then Text v else seg"
  from Cons.prems p have k: "bracket_free k" and v: "plain_text v"
    and rest: "\<forall>(k, v) \<in> set comb. bracket_free k \<and> plain_text v" by auto
  have pl: "\<forall>seg \<in> set (map ?r segs). plain seg"
    using Cons.prems(2) v by auto
  have m: "substitute comb (?r seg) = substitute ((k, v) # comb) seg" for seg
    by (cases seg) auto
  have "fill (render segs) (p # comb) = fill (render (map ?r segs)) comb"
    by (simp only: p fill_Cons str_replace_render [OF k Cons.prems(2)])
  also have "\<dots> = render (map (substitute comb) (map ?r segs))"
    by (rule Cons.IH [OF rest pl])
  also have "\<dots> = render (map (substitute (p # comb)) segs)"
    by (simp add: m p comp_def)
  finally show ?case .
qed

lemma str_replace_absent:
  "old \<noteq> [] \<Longrightarrow> \<not> sublist old s \<Longrightarrow> str_replace s old new = s"
proof (induction s)
  case Nil
  then show ?case by (cases old) simp_all
next
  case (Cons c cs)
  then have "\<not> prefix old (c # cs)" and "\<not> sublist old cs"
    by (simp_all add: sublist_Cons_right)
  with Cons show ?case by (simp add: str_replace_miss)
qed

lemma fill_absent: "\<forall>(k, v) \<in> set comb. \<not> sublist (token k) t \<Longrightarrow> fill t comb = t"
proof (induction comb)
  case Nil
  show ?case by (simp add: fill_Nil)
next
  case (Cons p comb)
  obtain k v where p: "p = (k, v)" by (cases p)
  from Cons.prems p have "str_replace t (token k) v = t"
    by (intro str_replace_absent token_not_Nil) simp
  with Cons show ?case by (simp add: p fill_Cons)
qed

text \<open>
  Claim C2, as the code has it. The loop replaces the tokens key after key, each
  replacement working on the result of the one before. Let the template be made of
  placeholders, whose names have no bracket, and of texts that have no \<^verbatim>\<open>[[\<close> and do
  not end in \<^verbatim>\<open>[\<close>; let the keys of the combination have no bracket and its values no
  \<^verbatim>\<open>[[\<close> and no \<^verbatim>\<open>[\<close> at their end. Then the result is the template with every
  placeholder that is a key of the combination replaced by the value of the key, and
  everything else unchanged. For every template and combination, if no token of a key
  occurs in the template, the result is the template.
\<close>

theorem fill_simultaneous:
  "((\<forall>(k, v) \<in> set combination. bracket_free k \<and> plain_text v) \<and> (\<forall>seg \<in> set segs. plain seg)
      \<longrightarrow> fill (render segs) combination = render (map (substitute combination) segs))
   \<and> ((\<forall>(k, v) \<in> set combination. \<not> sublist (token k) t) \<longrightarrow> fill t combination = t)"
proof (intro conjI impI)
  assume "(\<forall>(k, v) \<in> set combination. bracket_free k \<and> plain_text v)
      \<and> (\<forall>seg \<in> set segs. plain seg)"
  then show "fill (render segs) combination = render (map (substitute combination) segs)"
    by (intro fill_render) simp_all
next
  assume "\<forall>(k, v) \<in> set combination. \<not> sublist (token k) t"
  then show "fill t combination = t" by (rule fill_absent)
qed

theorem fill_simultaneous_witness:
  "fill ''[[X]] met [[Y]] in [[X]]'' [(''X'', ''Alice''), (''Y'', ''Bob'')] = ''Alice met Bob in Alice''
   \<and> fill ''See [1]: about [[SourceArticleTitle]] in [[Tone]]''
        [(''Tone'', ''Dry''), (''SourceArticleTitle'', ''[Video] Fed raises rates [update]'')]
       = ''See [1]: about [Video] Fed raises rates [update] in Dry''
   \<and> fill ''Dear [[Z]]'' [(''X'', ''Alice''), (''Y'', ''Bob'')] = ''Dear [[Z]]''"
proof -
  let ?c = "[(''X'', ''Alice''), (''Y'', ''Bob'')]"
  let ?segs = "[Placeholder ''X'', Text '' met '', Placeholder ''Y'', Text '' in '', Placeholder ''X'']"
  let ?d = "[(''Tone'', ''Dry''), (''SourceArticleTitle'', ''[Video] Fed raises rates [update]'')]"
  let ?news = "[Text ''See [1]: about '', Placeholder ''SourceArticleTitle'', Text '' in '',
                Placeholder ''Tone'']"
  have h1: "(\<forall>(k, v) \<in> set ?c. bracket_free k \<and> plain_text v) \<and> (\<forall>seg \<in> set ?segs. plain seg)"
    by (simp add: bracket_free_def plain_text_def sublist_Cons_right)
  have h2: "\<forall>(k, v) \<in> set ?c. \<not> sublist (token k) ''Dear [[Z]]''"
    by (simp add: token_def sublist_Cons_right)
  have h3: "(\<forall>(k, v) \<in> set ?d. bracket_free k \<and> plain_text v) \<and> (\<forall>seg \<in> set ?news. plain seg)"
    by (simp add: bracket_free_def plain_text_def sublist_Cons_right)
  note t = fill_simultaneous [of ?c ?segs "''Dear [[Z]]''"]
  note u = fill_simultaneous [of ?d ?news "[]"]
  from t h1 have "fill (render ?segs) ?c = render (map (substitute ?c) ?segs)" by blast
  moreover from t h2 have "fill ''Dear [[Z]]'' ?c = ''Dear [[Z]]''" by blast
  moreover from u h3 have "fill (render ?news) ?d = render (map (substitute ?d) ?news)" by blast
  ultimately show ?thesis by (simp add: render_def token_def)
qed

theorem fill_sequential_counterexample:
  "\<not> sublist (token ''Y'') ''[[X]]''
   \<and> fill ''[[X]]'' [(''X'', ''[[Y]]'')] = ''[[Y]]''
   \<and> fill ''[[X]]'' [(''X'', ''[[Y]]''), (''Y'', ''b'')] = ''b''"
  by (simp add: fill_def token_def sublist_Cons_right)

text \<open>
  Claim C5, as the code has it. A token \<^verbatim>\<open>[[Z]]\<close> of the template whose name has no
  bracket and is not a key of the combination stays where it is, when the keys of the
  combination have no brackets: the text before it and the text after it are
  substituted independently, whatever the values are.
\<close>

theorem fill_keeps_unknown_token:
  assumes "bracket_free z" and "z \<notin> set (keys combination)"
    and "\<forall>k \<in> set (keys combination). bracket_free k"
  shows "fill (pre @ token z @ post) combination
           = fill pre combination @ token z @ fill post combination"
  using assms(2,3)
proof (induction combination arbitrary: pre post)
  case Nil
  show ?case by (simp add: fill_Nil)
next
  case (Cons p combination)
  obtain k v where p: "p = (k, v)" by (cases p)
  from Cons.prems p have k: "bracket_free k" "k \<noteq> z"
    and rest: "z \<notin> set (keys combination)" "\<forall>k \<in> set (keys combination). bracket_free k"
    by (auto simp: keys_def)
  have "fill (pre @ token z @ post) (p # combination)
      = fill (str_replace pre (token k) v @ token z @ str_replace post (token k) v) combination"
    by (simp only: p fill_Cons str_replace_around_token [OF k(1) assms(1) k(2)])
  also have "\<dots> = fill (str_replace pre (token k) v) combination @ token z
      @ fill (str_replace post (token k) v) combination"
    by (rule Cons.IH [OF rest])
  also have "\<dots> = fill pre (p # combination) @ token z @ fill post (p # combination)"
    by (simp only: p fill_Cons)
  finally show ?case .
qed

theorem fill_keeps_unknown_token_witness:
  "fill ''Dear [[Z]], meet [[X]]'' [(''X'', ''Alice'')] = ''Dear [[Z]], meet Alice''"
proof -
  have "bracket_free ''Z''" "''Z'' \<notin> set (keys [(''X'', ''Alice'')])"
    "\<forall>k \<in> set (keys [(''X'', ''Alice'')]). bracket_free k"
    by (simp_all add: bracket_free_def keys_def)
  from fill_keeps_unknown_token [OF this, of "''Dear ''" "'', meet [[X]]''"]
  show ?thesis by (simp add: token_def fill_def)
qed

theorem fill_nested_token_counterexample:
  "findall ''[[A[[B]]'' = [''A[[B'']
   \<and> ''A[[B'' \<notin> set (keys [(''B'', ''x'')])
   \<and> fill ''[[A[[B]]'' [(''B'', ''x'')] = ''[[Ax''"
  by (simp add: fill_def token_def keys_def LF_def)

section \<open>The edited template\<close>

text \<open>
  Claim C10, as the code has it. \<^verbatim>\<open>automatic_news_generation_ui\<close> never reads the
  edited template: any two values of it give the same outcome. \<^verbatim>\<open>news_from_trends_ui\<close>
  reads it only to scan for unknown placeholders: two values that have the same unknown
  placeholders give the same filled prompts (or the same exception), and every filled
  prompt is a substitution into the template of the configuration file. The unknown
  placeholders become keys of the selection set, so an edit that changes them can
  change the filled prompts.
\<close>

theorem edited_template_influence:
  "automatic_news_generation_ui ui prompt_template comps default_list edited1
     = automatic_news_generation_ui ui prompt_template comps default_list edited2
   \<and> ((\<forall>known. news_possible_keys (components run) default_list = Inr known \<longrightarrow>
          uncovered_placeholders known (findall edited1)
            = uncovered_placeholders known (findall edited2))
        \<longrightarrow> news_from_trends_ui ui default_list (run\<lparr>user_prompt_template := edited1\<rparr>)
              = news_from_trends_ui ui default_list (run\<lparr>user_prompt_template := edited2\<rparr>))
   \<and> (\<forall>prompts. news_from_trends_ui ui default_list run = Inr prompts \<longrightarrow>
         (\<forall>prompt \<in> set prompts. \<exists>combination.
            prompt = fill (if based_on_real_news run then prompt_template_news_based run
                           else prompt_template_seeded_based run) combination))"
proof (intro conjI impI allI)
  show "automatic_news_generation_ui ui prompt_template comps default_list edited1
     = automatic_news_generation_ui ui prompt_template comps default_list edited2"
    by (simp add: automatic_news_generation_ui_def)
next
  assume h: "\<forall>known. news_possible_keys (components run) default_list = Inr known \<longrightarrow>
          uncovered_placeholders known (findall edited1)
            = uncovered_placeholders known (findall edited2)"
  show "news_from_trends_ui ui default_list (run\<lparr>user_prompt_template := edited1\<rparr>)
      = news_from_trends_ui ui default_list (run\<lparr>user_prompt_template := edited2\<rparr>)"
  proof (cases "news_possible_keys (components run) default_list")
    case (Inl e)
    then show ?thesis by (simp add: news_from_trends_ui_def)
  next
    case (Inr known)
    with h have "uncovered_placeholders known (findall edited1)
            = uncovered_placeholders known (findall edited2)" by simp
    with Inr show ?thesis by (simp add: news_from_trends_ui_def Let_def cong: sum.case_cong)
  qed
next
  fix prompts
  assume "news_from_trends_ui ui default_list run = Inr prompts"
  then show "\<forall>prompt \<in> set prompts. \<exists>combination.
            prompt = fill (if based_on_real_news run then prompt_template_news_based run
                           else prompt_template_seeded_based run) combination"
    by (auto simp: news_from_trends_ui_def Let_def split: sum.splits if_splits)
qed

theorem edited_template_influence_witness:
  "news_from_trends_ui default_operator [] (example_run\<lparr>user_prompt_template := ''Hello [[Foo]]''\<rparr>)
     = Inr [''Hello '']
   \<and> news_from_trends_ui default_operator []
        (example_run\<lparr>user_prompt_template := ''Bye [[Foo]] [[ISOLanguage]]''\<rparr>)
     = Inr [''Hello '']"
proof -
  have k: "news_possible_keys (components example_run) []
      = Inr [''ISOLanguage'', ''SeedPhrase'', ''SourceArticleTitle'', ''SourceArticleDescription'',
             ''SourceArticleUrl'']"
    by (simp add: news_possible_keys_def collect_keys_default_def example_run_def)
  have h: "\<forall>known. news_possible_keys (components example_run) [] = Inr known \<longrightarrow>
          uncovered_placeholders known (findall ''Hello [[Foo]]'')
            = uncovered_placeholders known (findall ''Bye [[Foo]] [[ISOLanguage]]'')"
    by (simp add: k uncovered_placeholders_def LF_def)
  have 1: "news_from_trends_ui default_operator []
        (example_run\<lparr>user_prompt_template := ''Hello [[Foo]]''\<rparr>) = Inr [''Hello '']"
    by (simp add: news_from_trends_ui_def k [unfolded example_run_def, simplified] example_run_def
        default_operator_def render_ui_def uncovered_placeholders_def
        fix_structure_def expand_def unzip_items_def dict_of_def merge_step_def fill_def token_def
        LF_def)
  from edited_template_influence [of default_operator _ _ "[]" "''Hello [[Foo]]''"
      "''Bye [[Foo]] [[ISOLanguage]]''" example_run, THEN conjunct2, THEN conjunct1] h
  have "news_from_trends_ui default_operator [] (example_run\<lparr>user_prompt_template := ''Hello [[Foo]]''\<rparr>)
      = news_from_trends_ui default_operator []
          (example_run\<lparr>user_prompt_template := ''Bye [[Foo]] [[ISOLanguage]]''\<rparr>)"
    by blast
  with 1 show ?thesis by simp
qed

theorem edited_template_counterexample:
  "news_from_trends_ui default_operator [] (example_run\<lparr>user_prompt_template := ''Hello [[Foo]]''\<rparr>)
     = Inr [''Hello '']
   \<and> news_from_trends_ui default_operator [] (example_run\<lparr>user_prompt_template := ''Hello''\<rparr>)
     = Inr [''Hello [[Foo]]'']"
  by (simp add: news_from_trends_ui_def news_possible_keys_def collect_keys_default_def
        example_run_def
        default_operator_def render_ui_def uncovered_placeholders_def
        fix_structure_def expand_def unzip_items_def dict_of_def merge_step_def fill_def token_def
        LF_def)

end
